theory Spec2Isabelle
  imports Complex_Main "HOL-Library.Product_Lexorder" "HOL-Library.Sublist"
begin

section \<open>Text: Python strings and the string methods the extractor calls\<close>

text \<open>
  A Python \<open>str\<close> is a sequence of Unicode code points and \<open>len\<close> counts code points.
  The model covers the code points below 256: a \<^typ>\<open>char\<close> stands for the code point
  with its number, so that \<open>length\<close> is \<open>len\<close>. The character classes below are
  the ones CPython uses on that range for \<open>str.isspace\<close>, \<open>str.isupper\<close>,
  \<open>str.islower\<close>, \<open>str.lower\<close> and for \<open>\s\<close> and \<open>\d\<close> in a \<open>str\<close> pattern.
\<close>

definition code_point :: "char \<Rightarrow> nat" where
  "code_point c = of_char c"

definition is_space :: "char \<Rightarrow> bool" where
  \<comment> \<open>\<open>str.isspace\<close>, also what \<open>strip()\<close>, \<open>split()\<close> and \<open>\s\<close> take as whitespace\<close>
  "is_space c = (let n = code_point c in
     (9 \<le> n \<and> n \<le> 13) \<or> (28 \<le> n \<and> n \<le> 32) \<or> n = 133 \<or> n = 160)"

definition is_decimal :: "char \<Rightarrow> bool" where
  \<comment> \<open>\<open>\d\<close> and \<open>[0-9]\<close>\<close>
  "is_decimal c = (let n = code_point c in 48 \<le> n \<and> n \<le> 57)"

definition is_AZ :: "char \<Rightarrow> bool" where
  \<comment> \<open>\<open>[A-Z]\<close>\<close>
  "is_AZ c = (let n = code_point c in 65 \<le> n \<and> n \<le> 90)"

definition is_az :: "char \<Rightarrow> bool" where
  \<comment> \<open>\<open>[a-z]\<close>\<close>
  "is_az c = (let n = code_point c in 97 \<le> n \<and> n \<le> 122)"

definition is_upper_char :: "char \<Rightarrow> bool" where
  "is_upper_char c = (let n = code_point c in
     (65 \<le> n \<and> n \<le> 90) \<or> (192 \<le> n \<and> n \<le> 214) \<or> (216 \<le> n \<and> n \<le> 222))"

definition is_lower_char :: "char \<Rightarrow> bool" where
  "is_lower_char c = (let n = code_point c in
     (97 \<le> n \<and> n \<le> 122) \<or> n = 170 \<or> n = 181 \<or> n = 186
       \<or> (223 \<le> n \<and> n \<le> 246) \<or> (248 \<le> n \<and> n \<le> 255))"

definition lower_char :: "char \<Rightarrow> char" where
  "lower_char c = (if is_upper_char c then char_of (code_point c + 32) else c)"

definition py_strip :: "string \<Rightarrow> string" where
  \<comment> \<open>\<open>s.strip()\<close>\<close>
  "py_strip s = rev (dropWhile is_space (rev (dropWhile is_space s)))"

fun split_from :: "string \<Rightarrow> string \<Rightarrow> string list" where
  \<comment> \<open>the scan of \<open>s.split()\<close>; the second argument is the word being read\<close>
  "split_from [] w = (if w = [] then [] else [w])"
| "split_from (c # cs) w =
     (if is_space c then (if w = [] then split_from cs [] else w # split_from cs [])
      else split_from cs (w @ [c]))"

definition py_split :: "string \<Rightarrow> string list" where
  \<comment> \<open>\<open>s.split()\<close>: the maximal runs of non-whitespace\<close>
  "py_split s = split_from s []"

definition py_lower :: "string \<Rightarrow> string" where
  "py_lower s = map lower_char s"

definition py_islower :: "string \<Rightarrow> bool" where
  \<comment> \<open>\<open>s.islower()\<close>: some lowercase character and no uppercase one\<close>
  "py_islower s = ((\<exists>c \<in> set s. is_lower_char c) \<and> (\<forall>c \<in> set s. \<not> is_upper_char c))"

definition py_isupper :: "string \<Rightarrow> bool" where
  \<comment> \<open>\<open>s.isupper()\<close>: some uppercase character and no lowercase one\<close>
  "py_isupper s = ((\<exists>c \<in> set s. is_upper_char c) \<and> (\<forall>c \<in> set s. \<not> is_lower_char c))"

section \<open>Patterns: the fragment of \<open>re\<close> the extractor's tables use\<close>

text \<open>
  Every repetition in the extractor's patterns is over a single character class, so the
  pattern language has \<open>AtLeast n P\<close> for \<open>[P]{n,}\<close> (\<open>+\<close> is \<open>AtLeast 1\<close>) instead of a
  general star. \<open>rmatch r s\<close> lists what is left of \<open>s\<close> after each way of matching
  \<open>r\<close> at its start, longest repetition first as the backtracking matcher tries them;
  \<open>re.match(r, s)\<close> is truthy when there is such a way.
\<close>

datatype regex =
    Eps
  | Chr char
  | Cls "char \<Rightarrow> bool"
  | Seq regex regex
  | Alt regex regex
  | AtLeast nat "char \<Rightarrow> bool"

fun at_least :: "nat \<Rightarrow> (char \<Rightarrow> bool) \<Rightarrow> string \<Rightarrow> string list" where
  "at_least n P [] = (if n = 0 then [[]] else [])"
| "at_least n P (x # xs) =
     (if P x then at_least (n - 1) P xs else []) @ (if n = 0 then [x # xs] else [])"

fun rmatch :: "regex \<Rightarrow> string \<Rightarrow> string list" where
  "rmatch Eps s = [s]"
| "rmatch (Chr c) s = (case s of [] \<Rightarrow> [] | x # xs \<Rightarrow> if x = c then [xs] else [])"
| "rmatch (Cls P) s = (case s of [] \<Rightarrow> [] | x # xs \<Rightarrow> if P x then [xs] else [])"
| "rmatch (Seq a b) s = concat (map (rmatch b) (rmatch a s))"
| "rmatch (Alt a b) s = rmatch a s @ rmatch b s"
| "rmatch (AtLeast n P) s = at_least n P s"

definition re_match :: "regex \<Rightarrow> string \<Rightarrow> bool" where
  "re_match r s = (rmatch r s \<noteq> [])"

fun lit :: "string \<Rightarrow> regex" where
  "lit [] = Eps"
| "lit (c # cs) = Seq (Chr c) (lit cs)"

definition digits :: regex where
  \<comment> \<open>\<open>\d+\<close>\<close>
  "digits = AtLeast 1 is_decimal"

text \<open>
  The three tables of the constructor, pattern by pattern:
  \<^item> \<open>h1_patterns\<close>: \<^verbatim>\<open>^([A-Z][A-Z\s]{4,}|[IVXLCDM]+\s|[1-9]\s)\<close>,
    \<^verbatim>\<open>^Chapter\s+\d+\<close>, \<^verbatim>\<open>^Appendix\s+[A-Z0-9]+\<close>;
  \<^item> \<open>h2_patterns\<close>: \<^verbatim>\<open>^\d+\.\d+\<close>, \<^verbatim>\<open>^\([a-z]\)\<close>, \<^verbatim>\<open>^[a-z]\)\<close>;
  \<^item> \<open>h3_patterns\<close>: \<^verbatim>\<open>^\d+\.\d+\.\d+\<close>, \<^verbatim>\<open>^\([0-9]+\)\<close>.
\<close>

definition h1_patterns :: "regex list" where
  "h1_patterns =
    [ Alt (Seq (Cls is_AZ) (AtLeast 4 (\<lambda>c. is_AZ c \<or> is_space c)))
       (Alt (Seq (AtLeast 1 (\<lambda>c. c \<in> set ''IVXLCDM'')) (Cls is_space))
            (Seq (Cls (\<lambda>c. c \<in> set ''123456789'')) (Cls is_space))),
      Seq (lit ''Chapter'') (Seq (AtLeast 1 is_space) digits),
      Seq (lit ''Appendix'') (Seq (AtLeast 1 is_space) (AtLeast 1 (\<lambda>c. is_AZ c \<or> is_decimal c))) ]"

definition h2_patterns :: "regex list" where
  "h2_patterns =
    [ Seq digits (Seq (Chr CHR ''.'') digits),
      Seq (Chr CHR ''('') (Seq (Cls is_az) (Chr CHR '')'')),
      Seq (Cls is_az) (Chr CHR '')'') ]"

definition h3_patterns :: "regex list" where
  "h3_patterns =
    [ Seq digits (Seq (Chr CHR ''.'') (Seq digits (Seq (Chr CHR ''.'') digits))),
      Seq (Chr CHR ''('') (Seq (AtLeast 1 is_decimal) (Chr CHR '')'')) ]"

definition heading_keywords :: "string set" where
  "heading_keywords =
    {''introduction'', ''summary'', ''conclusion'', ''overview'', ''abstract'', ''references'',
     ''appendix'', ''contents'', ''table of contents'', ''acknowledgements''}"

section \<open>The heading classifier\<close>

datatype level = H1 | H2 | H3

definition any_match :: "regex list \<Rightarrow> string \<Rightarrow> bool" where
  \<comment> \<open>\<open>for pat in pats: if re.match(pat, text): return ...\<close> reaches its return\<close>
  "any_match pats s = list_ex (\<lambda>pat. re_match pat s) pats"

definition is_heading :: "string \<Rightarrow> level option" where
  "is_heading raw =
     (let text = py_strip raw in
      if length (py_split text) > 20 \<or> length text > 150 then None
      else if any_match h3_patterns text then Some H3
      else if any_match h2_patterns text then Some H2
      else if any_match h1_patterns text then Some H1
      else if py_lower text \<in> heading_keywords \<or> py_isupper text then Some H1
      else None)"

section \<open>The document as the text adapter yields it\<close>

text \<open>
  \<open>page.get_text("dict")["blocks"]\<close> is a list of blocks; a block has a list of lines
  under \<open>"lines"\<close> or, for an image block, no such key; a line has a list of spans; a
  span has its text and its font size. Font sizes are finite floats, which compare and
  negate as the reals they denote. Reading a page (\<open>doc[page_num]\<close>, then \<open>get_text\<close>)
  either gives its blocks or raises; a document is the list of these outcomes, one per
  page, so that \<open>doc.page_count\<close> is its length. What is raised is either an instance
  of \<open>Exception\<close> or an exception outside that class (\<open>KeyboardInterrupt\<close>,
  \<open>SystemExit\<close>, \<open>GeneratorExit\<close>), each with its message.
\<close>

record span =
  span_text :: string
  span_size :: real

type_synonym line = "span list"

type_synonym block = "line list option"

type_synonym page = "block list"

datatype exn = Exception string | BaseException string

type_synonym document = "(exn + page) list"

section \<open>Title inference\<close>

type_synonym candidate = "string \<times> real \<times> nat"

definition span_candidates :: "nat \<Rightarrow> span \<Rightarrow> candidate list" where
  \<comment> \<open>the body of the innermost loop of \<open>extract_title\<close>: what it appends\<close>
  "span_candidates page_num s =
     (let txt = py_strip (span_text s) in
      if 10 < length txt \<and> length txt < 150 \<and> \<not> py_islower txt
      then [(txt, span_size s, page_num)] else [])"

definition block_candidates :: "nat \<Rightarrow> block \<Rightarrow> candidate list" where
  "block_candidates page_num b =
     (case b of
        None \<Rightarrow> []
      | Some ls \<Rightarrow> concat (map (\<lambda>l. concat (map (span_candidates page_num) l)) ls))"

definition page_candidates :: "nat \<Rightarrow> page \<Rightarrow> candidate list" where
  "page_candidates page_num blocks = concat (map (block_candidates page_num) blocks)"

fun title_candidates :: "nat \<Rightarrow> document \<Rightarrow> exn + candidate list" where
  \<comment> \<open>the loop over the pages, from page \<open>page_num\<close> on\<close>
  "title_candidates page_num [] = Inr []"
| "title_candidates page_num (p # ps) =
     (case p of
        Inl e \<Rightarrow> Inl e
      | Inr blocks \<Rightarrow>
          (case title_candidates (Suc page_num) ps of
             Inl e \<Rightarrow> Inl e
           | Inr cs \<Rightarrow> Inr (page_candidates page_num blocks @ cs)))"

definition title_key :: "candidate \<Rightarrow> real \<times> nat" where
  \<comment> \<open>\<open>lambda x: (-x[1], x[2])\<close>; pairs compare lexicographically, as tuples do\<close>
  "title_key x = (- fst (snd x), snd (snd x))"

definition extract_title :: "document \<Rightarrow> exn + string" where
  \<comment> \<open>\<open>list.sort\<close> is stable, and so is \<open>sort_key\<close>\<close>
  "extract_title doc =
     (case title_candidates 0 (take (min 2 (length doc)) doc) of
        Inl e \<Rightarrow> Inl e
      | Inr candidates \<Rightarrow>
          if candidates = [] then Inr []
          else Inr (fst (hd (sort_key title_key candidates))))"

section \<open>Outline building\<close>

record outline_entry =
  entry_level :: level
  entry_text :: string
  entry_page :: nat

fun join_space :: "string list \<Rightarrow> string" where
  \<comment> \<open>\<open>" ".join(xs)\<close>\<close>
  "join_space [] = []"
| "join_space [x] = x"
| "join_space (x # y # ys) = x @ '' '' @ join_space (y # ys)"

definition full_line_of :: "line \<Rightarrow> string" where
  "full_line_of l = py_strip (join_space (map (\<lambda>s. py_strip (span_text s)) l))"

type_synonym outline_state = "outline_entry list \<times> (string \<times> nat) set"

definition outline_line :: "nat \<Rightarrow> line \<Rightarrow> outline_state \<Rightarrow> outline_state" where
  \<comment> \<open>the body of the innermost loop of \<open>extract_outline\<close> on the state \<open>(outline, seen)\<close>\<close>
  "outline_line page_num l st =
     (let full_line = full_line_of l in
      if full_line = [] then st
      else
        let lv = is_heading full_line; key = (py_lower full_line, page_num) in
        (case lv of
           None \<Rightarrow> st
         | Some h \<Rightarrow>
             if key \<notin> snd st
             then (fst st @ [\<lparr>entry_level = h, entry_text = full_line, entry_page = page_num + 1\<rparr>],
                   insert key (snd st))
             else st))"

definition block_lines :: "block \<Rightarrow> line list" where
  \<comment> \<open>\<open>block.get("lines", [])\<close>\<close>
  "block_lines b = (case b of None \<Rightarrow> [] | Some ls \<Rightarrow> ls)"

definition outline_page :: "nat \<Rightarrow> page \<Rightarrow> outline_state \<Rightarrow> outline_state" where
  "outline_page page_num blocks st =
     fold (\<lambda>b. fold (outline_line page_num) (block_lines b)) blocks st"

fun outline_pages :: "nat \<Rightarrow> document \<Rightarrow> outline_state \<Rightarrow> exn + outline_state" where
  \<comment> \<open>the loop over the pages, from page \<open>page_num\<close> on\<close>
  "outline_pages page_num [] st = Inr st"
| "outline_pages page_num (p # ps) st =
     (case p of
        Inl e \<Rightarrow> Inl e
      | Inr blocks \<Rightarrow> outline_pages (Suc page_num) ps (outline_page page_num blocks st))"

definition extract_outline :: "document \<Rightarrow> exn + outline_entry list" where
  "extract_outline doc =
     (case outline_pages 0 doc ([], {}) of Inl e \<Rightarrow> Inl e | Inr st \<Rightarrow> Inr (fst st))"

section \<open>Document processing\<close>

text \<open>
  A path is the list of its components. \<open>Path.name\<close> is the last one and \<open>Path.stem\<close>
  is the name without its last suffix: \<open>pathlib\<close> cuts at the last dot unless that dot
  is the first or the last character of the name. \<open>fitz.open\<close> is the adapter's entry
  point: it gives a document or raises.
\<close>

type_synonym path = "string list"

definition path_name :: "path \<Rightarrow> string" where
  "path_name p = (if p = [] then [] else last p)"

definition rfind :: "char \<Rightarrow> string \<Rightarrow> nat option" where
  "rfind c s =
     (if c \<in> set s then Some (length s - 1 - length (takeWhile (\<lambda>x. x \<noteq> c) (rev s))) else None)"

definition path_stem :: "path \<Rightarrow> string" where
  "path_stem p =
     (let name = path_name p in
      case rfind CHR ''.'' name of
        None \<Rightarrow> name
      | Some i \<Rightarrow> if 0 < i \<and> i < length name - 1 then take i name else name)"

record doc_structure =
  title :: string
  outline :: "outline_entry list"

definition degraded :: "path \<Rightarrow> doc_structure" where
  \<comment> \<open>what the \<open>except Exception\<close> handler returns\<close>
  "degraded pdf_path = \<lparr>title = path_stem pdf_path, outline = []\<rparr>"

definition try_body :: "(path \<Rightarrow> exn + document) \<Rightarrow> path \<Rightarrow> exn + doc_structure" where
  \<comment> \<open>the \<open>try\<close> block of \<open>extract_structure\<close>: the first exception raised ends it\<close>
  "try_body fitz_open pdf_path =
     (case fitz_open pdf_path of
        Inl e \<Rightarrow> Inl e
      | Inr doc \<Rightarrow>
          (case extract_title doc of
             Inl e \<Rightarrow> Inl e
           | Inr t \<Rightarrow>
               (case extract_outline doc of
                  Inl e \<Rightarrow> Inl e
                | Inr ol \<Rightarrow> Inr \<lparr>title = t, outline = ol\<rparr>)))"

definition extract_structure :: "(path \<Rightarrow> exn + document) \<Rightarrow> path \<Rightarrow> exn + doc_structure" where
  \<comment> \<open>\<open>except Exception\<close> handles the instances of \<open>Exception\<close>; any other exception
      leaves the function, to its caller\<close>
  "extract_structure fitz_open pdf_path =
     (case try_body fitz_open pdf_path of
        Inl (Exception m) \<Rightarrow> Inr (degraded pdf_path)
      | Inl (BaseException m) \<Rightarrow> Inl (BaseException m)
      | Inr r \<Rightarrow> Inr r)"

section \<open>Notions the statements use\<close>

text \<open>
  \<open>lang r\<close> is the set of strings the pattern \<open>r\<close> matches in full, so that
  \<open>re.match\<close> succeeds on the texts that have a prefix in it. \<open>is_int\<close> holds of
  the non-empty strings of decimal digits, \<open>caps_and_spaces\<close> of the texts made of
  uppercase letters and blanks only.
\<close>

fun lang :: "regex \<Rightarrow> string set" where
  "lang Eps = {[]}"
| "lang (Chr c) = {[c]}"
| "lang (Cls P) = {[x] | x. P x}"
| "lang (Seq a b) = {p @ q | p q. p \<in> lang a \<and> q \<in> lang b}"
| "lang (Alt a b) = lang a \<union> lang b"
| "lang (AtLeast n P) = {p. n \<le> length p \<and> (\<forall>c \<in> set p. P c)}"

definition is_int :: "string \<Rightarrow> bool" where
  "is_int a = (a \<noteq> [] \<and> list_all is_decimal a)"

definition caps_and_spaces :: "string \<Rightarrow> bool" where
  "caps_and_spaces t = list_all (\<lambda>c. is_upper_char c \<or> c = CHR '' '') t"

text \<open>
  For the title: a candidate is the triple the extractor appends; \<open>page_spans\<close> lists the
  spans of a page in reading order; \<open>eligible\<close> is the filter of the extractor in the
  words of the specification; \<open>eligible_spans n pages\<close> lists, in reading order, the
  candidates of the eligible spans of \<open>pages\<close>, numbered from \<open>n\<close>; \<open>uncased\<close> holds of
  the strings with no uppercase and no lowercase character. The documents below are the
  examples the statements are evaluated on.
\<close>

definition cand_text :: "candidate \<Rightarrow> string" where "cand_text c = fst c"

definition cand_size :: "candidate \<Rightarrow> real" where "cand_size c = fst (snd c)"

definition cand_page :: "candidate \<Rightarrow> nat" where "cand_page c = snd (snd c)"

definition page_spans :: "page \<Rightarrow> span list" where
  "page_spans blocks = concat (map (\<lambda>b. case b of None \<Rightarrow> [] | Some ls \<Rightarrow> concat ls) blocks)"

definition eligible :: "span \<Rightarrow> bool" where
  "eligible s = (10 < length (py_strip (span_text s)) \<and> length (py_strip (span_text s)) < 150
                 \<and> \<not> py_islower (py_strip (span_text s)))"

definition as_candidate :: "nat \<Rightarrow> span \<Rightarrow> candidate" where
  "as_candidate k s = (py_strip (span_text s), span_size s, k)"

definition eligible_spans :: "nat \<Rightarrow> page list \<Rightarrow> candidate list" where
  "eligible_spans n pages =
     concat (map (\<lambda>(k, pg). map (as_candidate k) (filter eligible (page_spans pg)))
                 (enumerate n pages))"

definition uncased :: "string \<Rightarrow> bool" where
  "uncased s = list_all (\<lambda>c. \<not> is_upper_char c \<and> \<not> is_lower_char c) s"

definition report_doc :: document where
  "report_doc =
     [Inr [Some [[\<lparr>span_text = ''Annual Report 2024'', span_size = 18\<rparr>,
                  \<lparr>span_text = '' a lowercase running line '', span_size = 30\<rparr>]], None],
      Inr [Some [[\<lparr>span_text = ''Body Text Of The Page'', span_size = 10\<rparr>]]],
      Inl (Exception ''unreadable page'')]"

definition report_pages :: "page list" where
  "report_pages =
     [[Some [[\<lparr>span_text = ''Annual Report 2024'', span_size = 18\<rparr>,
              \<lparr>span_text = '' a lowercase running line '', span_size = 30\<rparr>]], None],
      [Some [[\<lparr>span_text = ''Body Text Of The Page'', span_size = 10\<rparr>]]]]"

definition tie_pages :: "page list" where
  "tie_pages =
     [[Some [[\<lparr>span_text = ''Report Number 17'', span_size = 12\<rparr>],
             [\<lparr>span_text = ''First Title Line'', span_size = 24\<rparr>,
              \<lparr>span_text = ''Second Title Line'', span_size = 24\<rparr>]]],
      [Some [[\<lparr>span_text = ''Third Title Line'', span_size = 24\<rparr>]]]]"

definition figures_span :: span where
  "figures_span = \<lparr>span_text = '' 2024-2025 / 12.5% '', span_size = 9\<rparr>"

text \<open>
  For the outline: \<open>doc_lines n pages\<close> lists, in reading order, the page index and the
  joined text of every line of \<open>pages\<close>, numbered from \<open>n\<close>; \<open>heading_entries\<close> lists the
  entries of the non-empty lines that get a level, before any deduplication;
  \<open>entry_key\<close> is the pair of the lowercased text and the page of an entry, and
  \<open>seen_key\<close> the key the extractor keeps in \<open>seen\<close> (with the page index);
  \<open>first_by_key\<close> keeps of a list of entries the first one of every key, in the order
  of the list;
  \<open>note_entries\<close> is the loop body on the entries of the heading lines, and
  \<open>outline_inv\<close> its invariant.
\<close>

definition page_lines :: "page \<Rightarrow> line list" where
  "page_lines blocks = concat (map block_lines blocks)"

definition doc_lines :: "nat \<Rightarrow> page list \<Rightarrow> (nat \<times> string) list" where
  "doc_lines n pages =
     concat (map (\<lambda>(k, pg). map (\<lambda>l. (k, full_line_of l)) (page_lines pg)) (enumerate n pages))"

definition line_entries :: "nat \<times> string \<Rightarrow> outline_entry list" where
  "line_entries x =
     (if snd x = [] then []
      else case is_heading (snd x) of
             None \<Rightarrow> []
           | Some h \<Rightarrow> [\<lparr>entry_level = h, entry_text = snd x, entry_page = fst x + 1\<rparr>])"

definition heading_entries :: "nat \<Rightarrow> page list \<Rightarrow> outline_entry list" where
  "heading_entries n pages = concat (map line_entries (doc_lines n pages))"

definition entry_key :: "outline_entry \<Rightarrow> string \<times> nat" where
  "entry_key e = (py_lower (entry_text e), entry_page e)"

definition seen_key :: "outline_entry \<Rightarrow> string \<times> nat" where
  "seen_key e = (py_lower (entry_text e), entry_page e - 1)"

function first_by_key :: "outline_entry list \<Rightarrow> outline_entry list" where
  "first_by_key [] = []"
| "first_by_key (e # es) = e # first_by_key (filter (\<lambda>e'. entry_key e' \<noteq> entry_key e) es)"
  by pat_completeness auto
termination
  by (relation "measure length") (simp_all add: less_Suc_eq_le)

definition note_entry :: "outline_entry \<Rightarrow> outline_state \<Rightarrow> outline_state" where
  "note_entry e st =
     (if seen_key e \<notin> snd st then (fst st @ [e], insert (seen_key e) (snd st)) else st)"

definition note_entries :: "outline_entry list \<Rightarrow> outline_state \<Rightarrow> outline_state" where
  "note_entries es st = fold note_entry es st"

definition outline_inv :: "outline_state \<Rightarrow> bool" where
  "outline_inv st =
     (snd st = seen_key ` set (fst st) \<and> distinct (map entry_key (fst st))
      \<and> (\<forall>e \<in> set (fst st). 1 \<le> entry_page e))"

definition conclusion_pages :: "page list" where
  "conclusion_pages =
     [[Some [[\<lparr>span_text = ''CONCLUSION'', span_size = 14\<rparr>],
             [\<lparr>span_text = ''Conclusion'', span_size = 14\<rparr>],
             [\<lparr>span_text = ''a) item'', span_size = 10\<rparr>],
             [\<lparr>span_text = ''A) ITEM'', span_size = 10\<rparr>],
             [\<lparr>span_text = ''the body text '', span_size = 10\<rparr>,
              \<lparr>span_text = '' of the page'', span_size = 10\<rparr>]]],
      [None, Some [[\<lparr>span_text = ''CONCLUSION'', span_size = 14\<rparr>]]]]"

definition order_pages :: "page list" where
  "order_pages =
     [[Some [[\<lparr>span_text = ''2.1 Scope'', span_size = 12\<rparr>]],
       Some [[\<lparr>span_text = ''1.1 Goals'', span_size = 12\<rparr>]]],
      [],
      [Some [[\<lparr>span_text = ''INTRODUCTION'', span_size = 16\<rparr>]]]]"

text \<open>
  For the document processor: an adapter that opens every path to a one-page document
  whose page cannot be read because the user interrupts the program.
\<close>

definition interrupted_open :: "path \<Rightarrow> exn + document" where
  "interrupted_open pdf_path = Inr [Inl (BaseException ''KeyboardInterrupt'')]"

section \<open>Matching and trimming\<close>

lemma at_least_set:
  "set (at_least n P s) = {q. \<exists>p. s = p @ q \<and> n \<le> length p \<and> (\<forall>c \<in> set p. P c)}"
proof (induction s arbitrary: n)
  case Nil
  then show ?case by auto
next
  case (Cons x xs)
  show ?case
  proof (intro set_eqI iffI)
    fix q assume "q \<in> set (at_least n P (x # xs))"
    then consider (a) "P x" "q \<in> set (at_least (n - 1) P xs)" | (b) "n = 0" "q = x # xs"
      by (auto split: if_splits)
    then show "q \<in> {q. \<exists>p. x # xs = p @ q \<and> n \<le> length p \<and> (\<forall>c \<in> set p. P c)}"
    proof cases
      case a
      then obtain p where "xs = p @ q" "n - 1 \<le> length p" "\<forall>c \<in> set p. P c"
        using Cons.IH by auto
      with a(1) have "x # xs = (x # p) @ q \<and> n \<le> length (x # p) \<and> (\<forall>c \<in> set (x # p). P c)"
        by auto
      then show ?thesis by blast
    next
      case b
      then show ?thesis by auto
    qed
  next
    fix q assume "q \<in> {q. \<exists>p. x # xs = p @ q \<and> n \<le> length p \<and> (\<forall>c \<in> set p. P c)}"
    then obtain p where p: "x # xs = p @ q" "n \<le> length p" "\<forall>c \<in> set p. P c" by auto
    show "q \<in> set (at_least n P (x # xs))"
    proof (cases p)
      case Nil
      with p show ?thesis by auto
    next
      case (Cons y ys)
      with p have "P x" "xs = ys @ q" "n - 1 \<le> length ys" "\<forall>c \<in> set ys. P c" by auto
      then have "q \<in> set (at_least (n - 1) P xs)" using Cons.IH by auto
      with \<open>P x\<close> show ?thesis by auto
    qed
  qed
qed

lemma rmatch_set: "set (rmatch r s) = {q. \<exists>p \<in> lang r. s = p @ q}"
proof (induction r arbitrary: s)
  case (Seq a b)
  show ?case
    apply (simp add: Seq)
    apply (rule set_eqI)
    apply auto
     apply blast
    by (metis append.assoc)
next
  case (AtLeast n P)
  show ?case by (auto simp: at_least_set)
qed (auto split: list.splits)

lemma re_match_iff: "re_match r s \<longleftrightarrow> (\<exists>p \<in> lang r. prefix p s)"
proof -
  have "re_match r s \<longleftrightarrow> set (rmatch r s) \<noteq> {}" by (simp add: re_match_def)
  also have "\<dots> \<longleftrightarrow> (\<exists>p \<in> lang r. prefix p s)" by (auto simp: rmatch_set prefix_def)
  finally show ?thesis .
qed

lemma lang_digits: "lang digits = {a. is_int a}"
  by (auto simp: digits_def is_int_def list_all_iff Suc_le_eq)

lemma py_strip_subset: "set (py_strip s) \<subseteq> set s"
  by (auto simp: py_strip_def dest!: set_dropWhileD)

lemma dropWhile_keeps: "x \<in> set s \<Longrightarrow> \<not> P x \<Longrightarrow> x \<in> set (dropWhile P s)"
  by (induction s) auto

lemma py_strip_keeps: "x \<in> set s \<Longrightarrow> \<not> is_space x \<Longrightarrow> x \<in> set (py_strip s)"
  unfolding py_strip_def by (simp add: dropWhile_keeps)

lemma py_strip_length: "length (py_strip s) \<le> length s"
  unfolding py_strip_def
  by (metis length_rev length_dropWhile_le le_trans)

lemma py_strip_hd: "py_strip s \<noteq> [] \<Longrightarrow> \<not> is_space (hd (py_strip s))"
proof -
  assume ne: "py_strip s \<noteq> []"
  let ?d = "dropWhile is_space s"
  let ?e = "dropWhile is_space (rev ?d)"
  from ne have e: "?e \<noteq> []" by (simp add: py_strip_def)
  then have d: "?d \<noteq> []" by (cases "dropWhile is_space s") simp_all
  then have hd: "\<not> is_space (hd ?d)" by (rule hd_dropWhile)
  from e obtain ys where ys: "rev ?d = takeWhile is_space (rev ?d) @ ?e" by simp
  have "?d = rev ?e @ rev (takeWhile is_space (rev ?d))"
    by (metis rev_append rev_rev_ident takeWhile_dropWhile_id)
  with e have "hd ?d = hd (rev ?e)" by (metis hd_append2 rev_is_Nil_conv)
  with hd show ?thesis by (simp add: py_strip_def)
qed

lemma py_strip_last: "py_strip s \<noteq> [] \<Longrightarrow> \<not> is_space (last (py_strip s))"
proof -
  assume ne: "py_strip s \<noteq> []"
  let ?e = "dropWhile is_space (rev (dropWhile is_space s))"
  from ne have e: "?e \<noteq> []" by (simp add: py_strip_def)
  then have "\<not> is_space (hd ?e)" by (rule hd_dropWhile)
  with e show ?thesis by (simp add: py_strip_def last_rev)
qed

lemma py_strip_fix: "s = [] \<or> (\<not> is_space (hd s) \<and> \<not> is_space (last s)) \<Longrightarrow> py_strip s = s"
proof (cases "s = []")
  case True then show ?thesis by (simp add: py_strip_def)
next
  case False
  assume "s = [] \<or> (\<not> is_space (hd s) \<and> \<not> is_space (last s))"
  with False have h: "\<not> is_space (hd s)" and l: "\<not> is_space (last s)" by auto
  from False h have 1: "dropWhile is_space s = s" by (cases s) auto
  from False l have 2: "dropWhile is_space (rev s) = rev s"
    by (cases "rev s") (auto simp: last_rev[symmetric] hd_rev)
  show ?thesis by (simp add: py_strip_def 1 2)
qed

lemma py_strip_idem: "py_strip (py_strip s) = py_strip s"
  by (rule py_strip_fix) (use py_strip_hd py_strip_last in blast)

lemma py_strip_prefix:
  assumes "prefix p s" "p \<noteq> []" "\<not> is_space (hd p)" "\<not> is_space (last p)"
  shows "prefix p (py_strip s)"
proof -
  from assms(1) obtain r where s: "s = p @ r" by (auto simp: prefix_def)
  from assms(2,3) have 1: "dropWhile is_space s = s" unfolding s by (cases p) auto
  from assms(2,4) have 2: "dropWhile is_space (rev p) = rev p"
    by (cases "rev p") (auto simp: hd_rev)
  have "dropWhile is_space (rev s) = (if \<forall>x \<in> set (rev r). is_space x then rev p
         else dropWhile is_space (rev r) @ rev p)"
    unfolding s by (simp add: dropWhile_append 2)
  then have "py_strip s = (if \<forall>x \<in> set (rev r). is_space x then p
         else p @ rev (dropWhile is_space (rev r)))"
    by (simp add: py_strip_def 1)
  then show ?thesis by (auto simp: prefix_def)
qed

lemma py_strip_is_prefix:
  assumes "s \<noteq> []" "\<not> is_space (hd s)"
  shows "prefix (py_strip s) s"
proof -
  from assms have 1: "dropWhile is_space s = s" by (cases s) auto
  have "rev s = takeWhile is_space (rev s) @ dropWhile is_space (rev s)" by simp
  then have "s = rev (dropWhile is_space (rev s)) @ rev (takeWhile is_space (rev s))"
    by (metis rev_append rev_rev_ident)
  then show ?thesis by (metis 1 py_strip_def prefixI)
qed

lemma split_from_spaces:
  "\<forall>c \<in> set sp. is_space c \<Longrightarrow> split_from sp w = (if w = [] then [] else [w])"
  by (induction sp arbitrary: w) auto

lemma split_from_trailing:
  "\<forall>c \<in> set sp. is_space c \<Longrightarrow> split_from (a @ sp) w = split_from a w"
  by (induction a arbitrary: w) (auto simp: split_from_spaces)

lemma split_from_leading: "split_from (dropWhile is_space s) [] = split_from s []"
  by (induction s) auto

lemma py_split_strip: "py_split (py_strip s) = py_split s"
proof -
  let ?d = "dropWhile is_space s"
  have "rev ?d = takeWhile is_space (rev ?d) @ dropWhile is_space (rev ?d)" by simp
  then have d: "?d = py_strip s @ rev (takeWhile is_space (rev ?d))"
    unfolding py_strip_def by (metis rev_append rev_rev_ident)
  have "\<forall>c \<in> set (rev (takeWhile is_space (rev ?d))). is_space c"
    by (auto dest: set_takeWhileD)
  then have "split_from (py_strip s @ rev (takeWhile is_space (rev ?d))) [] = split_from (py_strip s) []"
    by (rule split_from_trailing)
  with d have "split_from ?d [] = split_from (py_strip s) []" by simp
  then show ?thesis by (simp add: py_split_def split_from_leading)
qed


lemma lang_Seq_digits: "lang (Seq digits r) = {a @ q | a q. is_int a \<and> q \<in> lang r}"
  by (auto simp: lang_digits)

lemma lang_Seq_Chr: "lang (Seq (Chr c) r) = {c # q | q. q \<in> lang r}"
  by auto

lemma lang_int_int:
  "lang (Seq digits (Seq (Chr CHR ''.'') digits)) = {a @ ''.'' @ b | a b. is_int a \<and> is_int b}"
  by (auto simp: lang_digits)

lemma lang_int_int_int:
  "lang (Seq digits (Seq (Chr CHR ''.'') (Seq digits (Seq (Chr CHR ''.'') digits))))
     = {a @ ''.'' @ b @ ''.'' @ c | a b c. is_int a \<and> is_int b \<and> is_int c}"
  unfolding lang_Seq_digits lang_Seq_Chr lang_digits by auto blast

lemma lang_paren_int:
  "lang (Seq (Chr CHR ''('') (Seq (AtLeast 1 is_decimal) (Chr CHR '')'')))
     = {''('' @ a @ '')'' | a. is_int a}"
  by (auto simp: is_int_def list_all_iff Suc_le_eq)

lemma lang_paren_letter:
  "lang (Seq (Chr CHR ''('') (Seq (Cls is_az) (Chr CHR '')''))) = {[CHR ''('', x, CHR '')''] | x. is_az x}"
  by auto

lemma lang_letter_paren:
  "lang (Seq (Cls is_az) (Chr CHR '')'')) = {[x, CHR '')''] | x. is_az x}"
  by auto

lemma any_match_h3:
  "any_match h3_patterns u \<longleftrightarrow>
     (\<exists>a b c. is_int a \<and> is_int b \<and> is_int c \<and> prefix (a @ ''.'' @ b @ ''.'' @ c) u)
     \<or> (\<exists>a. is_int a \<and> prefix (''('' @ a @ '')'') u)"
  unfolding any_match_def h3_patterns_def
  by (simp only: list_ex_Nil_iff list_ex_Cons_iff re_match_iff lang_int_int_int lang_paren_int) blast

lemma any_match_h2:
  "any_match h2_patterns u \<longleftrightarrow>
     (\<exists>a b. is_int a \<and> is_int b \<and> prefix (a @ ''.'' @ b) u)
     \<or> (\<exists>x. is_az x \<and> prefix [CHR ''('', x, CHR '')''] u)
     \<or> (\<exists>x. is_az x \<and> prefix [x, CHR '')''] u)"
  unfolding any_match_def h2_patterns_def
  by (simp only: list_ex_Nil_iff list_ex_Cons_iff re_match_iff lang_int_int lang_paren_letter lang_letter_paren) blast

lemma is_int_hd: "is_int a \<Longrightarrow> a \<noteq> [] \<and> is_decimal (hd a) \<and> is_decimal (last a)"
  by (auto simp: is_int_def list_all_iff)

lemma decimal_not_space: "is_decimal c \<Longrightarrow> \<not> is_space c"
  by (auto simp: is_decimal_def is_space_def Let_def)

lemma decimal_not_paren: "is_decimal c \<Longrightarrow> c \<noteq> CHR ''(''"
  by (auto simp: is_decimal_def code_point_def Let_def)

lemma az_not_space: "is_az c \<Longrightarrow> \<not> is_space c"
  by (auto simp: is_az_def is_space_def Let_def)

lemma az_not_decimal: "is_az c \<Longrightarrow> \<not> is_decimal c"
  by (auto simp: is_az_def is_decimal_def Let_def)

lemma az_not_paren: "is_az c \<Longrightarrow> c \<noteq> CHR ''(''"
  by (auto simp: is_az_def code_point_def Let_def)

lemma paren_not_space: "\<not> is_space CHR ''(''" "\<not> is_space CHR '')''" "\<not> is_decimal CHR ''(''"
  by (simp_all add: is_space_def is_decimal_def code_point_def)

lemma is_heading_h3:
  assumes "any_match h3_patterns (py_strip t)"
    and "length (py_strip t) \<le> 150" and "length (py_split t) \<le> 20"
  shows "is_heading t = Some H3"
  using assms by (simp add: is_heading_def Let_def py_split_strip)

lemma prefix_hd: "prefix p u \<Longrightarrow> p \<noteq> [] \<Longrightarrow> hd u = hd p"
  by (auto simp: prefix_def)

lemma upper_not_decimal: "is_upper_char c \<Longrightarrow> \<not> is_decimal c"
  by (auto simp: is_upper_char_def is_decimal_def Let_def)

lemma upper_not_az: "is_upper_char c \<Longrightarrow> \<not> is_az c"
  by (auto simp: is_upper_char_def is_az_def Let_def)

lemma upper_not_lower: "is_upper_char c \<Longrightarrow> \<not> is_lower_char c"
  by (auto simp: is_upper_char_def is_lower_char_def Let_def)

lemma upper_not_space: "is_upper_char c \<Longrightarrow> \<not> is_space c"
  by (auto simp: is_upper_char_def is_space_def Let_def)

lemma upper_not_paren: "is_upper_char c \<Longrightarrow> c \<noteq> CHR ''(''"
  by (auto simp: is_upper_char_def code_point_def Let_def)

lemma blank_not_lower: "\<not> is_lower_char CHR '' ''"
  by (simp add: is_lower_char_def code_point_def)

lemma no_h3_h2_on_upper:
  assumes "u \<noteq> []" "is_upper_char (hd u)"
  shows "\<not> any_match h3_patterns u" "\<not> any_match h2_patterns u"
proof -
  from assms(2) have nd: "\<not> is_decimal (hd u)" and np: "hd u \<noteq> CHR ''(''" and na: "\<not> is_az (hd u)"
    by (simp_all add: upper_not_decimal upper_not_paren upper_not_az)
  have int: "\<And>a r. is_int a \<Longrightarrow> \<not> prefix (a @ r) u"
  proof
    fix a r assume a: "is_int a" and p: "prefix (a @ r) u"
    from a have "a \<noteq> []" "is_decimal (hd a)" using is_int_hd by auto
    with p have "is_decimal (hd u)" using prefix_hd [of "a @ r" u] by simp
    with nd show False by simp
  qed
  have par: "\<And>r. \<not> prefix (CHR ''('' # r) u"
    using np prefix_hd by fastforce
  have az: "\<And>x r. is_az x \<Longrightarrow> \<not> prefix (x # r) u"
    using na prefix_hd by fastforce
  show "\<not> any_match h3_patterns u"
    unfolding any_match_h3 using int par by auto
  show "\<not> any_match h2_patterns u"
    unfolding any_match_h2 using int par az by auto
qed

lemma is_heading_strip: "is_heading (py_strip t) = is_heading t"
  by (simp add: is_heading_def py_strip_idem)

lemma is_heading_h2:
  assumes "\<not> any_match h3_patterns (py_strip t)" "any_match h2_patterns (py_strip t)"
    and "length (py_strip t) \<le> 150" and "length (py_split t) \<le> 20"
  shows "is_heading t = Some H2"
  using assms by (simp add: is_heading_def Let_def py_split_strip)

lemma outline_pages_empty_pages:
  "outline_pages k (replicate n (Inr []) @ d) st = outline_pages (k + n) d st"
  by (induction n arbitrary: k) (simp_all add: outline_page_def)

lemma single_line_outline:
  assumes "is_heading t = Some h"
  shows "extract_outline (replicate n (Inr []) @ [Inr [Some [[\<lparr>span_text = t, span_size = z\<rparr>]]]])
           = Inr [\<lparr>entry_level = h, entry_text = py_strip t, entry_page = n + 1\<rparr>]"
proof -
  have ne: "py_strip t \<noteq> []"
  proof
    assume "py_strip t = []"
    then have "is_heading t = None"
      by (simp add: is_heading_def Let_def py_split_def any_match_def h3_patterns_def
          h2_patterns_def h1_patterns_def re_match_def digits_def py_lower_def py_isupper_def
          heading_keywords_def)
    with assms show False by simp
  qed
  have "full_line_of [\<lparr>span_text = t, span_size = z\<rparr>] = py_strip t"
    by (simp add: full_line_of_def py_strip_idem)
  with ne assms show ?thesis
    by (simp add: extract_outline_def outline_pages_empty_pages outline_page_def block_lines_def
        outline_line_def Let_def is_heading_strip)
qed

lemma prefix_nth: "prefix p u \<Longrightarrow> i < length p \<Longrightarrow> u ! i = p ! i"
  by (auto simp: prefix_def nth_append)

section \<open>Candidates and the stable sort\<close>

lemma span_candidates_eq: "span_candidates k s = map (as_candidate k) (filter eligible [s])"
  by (simp add: span_candidates_def eligible_def as_candidate_def Let_def)

lemma concat_span_candidates:
  "concat (map (span_candidates k) l) = map (as_candidate k) (filter eligible l)"
  by (induction l) (simp_all add: span_candidates_eq)

lemma concat_line_candidates:
  "concat (map (\<lambda>l. concat (map (span_candidates k) l)) ls)
     = map (as_candidate k) (filter eligible (concat ls))"
  by (induction ls) (simp_all add: concat_span_candidates)

lemma page_candidates_eq:
  "page_candidates k pg = map (as_candidate k) (filter eligible (page_spans pg))"
  unfolding page_candidates_def page_spans_def
  by (induction pg) (simp_all add: block_candidates_def concat_line_candidates split: option.splits)

lemma title_candidates_readable:
  "title_candidates n (map Inr pages) = Inr (eligible_spans n pages)"
  by (induction pages arbitrary: n) (simp_all add: eligible_spans_def page_candidates_eq)

lemma title_candidates_Inr:
  "title_candidates n d = Inr cs \<Longrightarrow> \<exists>pages. d = map Inr pages"
proof (induction d arbitrary: n cs)
  case Nil
  then show ?case by simp
next
  case (Cons p d)
  then obtain pg cs' where p: "p = Inr pg" and r: "title_candidates (Suc n) d = Inr cs'"
    by (auto split: sum.splits)
  from Cons.IH [OF r] obtain pages where "d = map Inr pages" by blast
  with p have "p # d = map Inr (pg # pages)" by simp
  then show ?case by (rule exI [of _ "pg # pages"])
qed

lemma sort_key_Nil_iff: "sort_key f xs = [] \<longleftrightarrow> xs = []"
  using length_sort [of f xs] by (metis length_0_conv)

lemma hd_sort_key_in: "xs \<noteq> [] \<Longrightarrow> hd (sort_key f xs) \<in> set xs"
  by (metis hd_in_set set_sort sort_key_Nil_iff)

lemma hd_sort_key_le:
  assumes "x \<in> set xs"
  shows "f (hd (sort_key f xs)) \<le> f x"
proof -
  let ?ys = "sort_key f xs"
  from assms have x: "x \<in> set ?ys" by simp
  then have ne: "?ys \<noteq> []" by (metis empty_iff empty_set)
  have s: "sorted (map f ?ys)" by (rule sorted_sort_key)
  from ne obtain y ys where ys: "?ys = y # ys" by (cases ?ys) auto
  with s x show ?thesis by auto
qed

lemma hd_filter_first:
  assumes "i < length xs" "P (xs ! i)" "\<forall>j<i. \<not> P (xs ! j)"
  shows "hd (filter P xs) = xs ! i"
  using assms
proof (induction xs arbitrary: i)
  case Nil
  then show ?case by simp
next
  case (Cons x xs)
  show ?case
  proof (cases i)
    case 0
    with Cons.prems show ?thesis by simp
  next
    case (Suc k)
    with Cons.prems have "\<not> P x" by auto
    moreover from Suc Cons.prems have "hd (filter P xs) = xs ! k"
      by (intro Cons.IH) auto
    ultimately show ?thesis using Suc by simp
  qed
qed

lemma hd_sort_key_stable:
  assumes "i < length xs" "\<forall>x \<in> set xs. f (xs ! i) \<le> f x" "\<forall>j<i. f (xs ! j) \<noteq> f (xs ! i)"
  shows "hd (sort_key f xs) = xs ! i"
proof -
  let ?ys = "sort_key f xs"
  let ?k = "f (xs ! i)"
  from assms(1) have ne: "xs \<noteq> []" and mem: "xs ! i \<in> set xs" by auto
  from ne have "hd ?ys \<in> set xs" by (rule hd_sort_key_in)
  with assms(2) have "?k \<le> f (hd ?ys)" by blast
  moreover from mem have "f (hd ?ys) \<le> ?k" by (rule hd_sort_key_le)
  ultimately have k: "f (hd ?ys) = ?k" by simp
  from ne have "?ys \<noteq> []" by (simp add: sort_key_Nil_iff)
  with k have "hd (filter (\<lambda>y. f y = ?k) ?ys) = hd ?ys" by (cases ?ys) auto
  moreover have "filter (\<lambda>y. f y = ?k) ?ys = filter (\<lambda>y. f y = ?k) xs" by (rule sort_key_stable)
  moreover from assms have "hd (filter (\<lambda>y. f y = ?k) xs) = xs ! i"
    by (intro hd_filter_first) auto
  ultimately show ?thesis by simp
qed

lemma title_key_le:
  "title_key c \<le> title_key c' \<longleftrightarrow>
     cand_size c' < cand_size c \<or> (cand_size c' = cand_size c \<and> cand_page c \<le> cand_page c')"
  by (auto simp: title_key_def cand_size_def cand_page_def less_eq_prod_def)

lemma title_key_eq:
  "title_key c = title_key c' \<longleftrightarrow> cand_size c = cand_size c' \<and> cand_page c = cand_page c'"
  by (auto simp: title_key_def cand_size_def cand_page_def)

lemma extract_title_readable:
  assumes "take (min 2 (length doc)) doc = map Inr pages"
  shows "extract_title doc =
           Inr (if eligible_spans 0 pages = [] then []
                else cand_text (hd (sort_key title_key (eligible_spans 0 pages))))"
  by (simp add: extract_title_def assms title_candidates_readable cand_text_def)

lemma eligible_spans_set:
  "set (eligible_spans 0 pages) =
     {as_candidate k s | k s. k < length pages \<and> s \<in> set (page_spans (pages ! k)) \<and> eligible s}"
proof (intro set_eqI iffI)
  fix c assume "c \<in> set (eligible_spans 0 pages)"
  then obtain k pg s where m: "(k, pg) \<in> set (enumerate 0 pages)"
    and s: "s \<in> set (page_spans pg)" "eligible s" "c = as_candidate k s"
    by (auto simp: eligible_spans_def)
  from m have "k < length pages" "pg = pages ! k" by (auto simp: in_set_enumerate_eq)
  with s show "c \<in> {as_candidate k s | k s.
      k < length pages \<and> s \<in> set (page_spans (pages ! k)) \<and> eligible s}" by blast
next
  fix c assume "c \<in> {as_candidate k s | k s.
      k < length pages \<and> s \<in> set (page_spans (pages ! k)) \<and> eligible s}"
  then obtain k s where k: "k < length pages"
    and s: "s \<in> set (page_spans (pages ! k))" "eligible s" "c = as_candidate k s" by blast
  from k have "(k, pages ! k) \<in> set (enumerate 0 pages)" by (simp add: in_set_enumerate_eq)
  with s show "c \<in> set (eligible_spans 0 pages)"
    unfolding eligible_spans_def by force
qed

lemma extract_title_take: "extract_title (take 2 doc) = extract_title doc"
proof -
  have "take (min 2 (length (take 2 doc))) (take 2 doc) = take (min 2 (length doc)) doc"
    by (simp add: min_def)
  then show ?thesis by (simp only: extract_title_def)
qed

lemma report_doc_pages: "take (min 2 (length report_doc)) report_doc = map Inr report_pages"
  by (simp add: report_doc_def report_pages_def)

lemma strip_a: "py_strip ''Annual Report 2024'' = ''Annual Report 2024''" by code_simp

lemma strip_b: "py_strip '' a lowercase running line '' = ''a lowercase running line''" by code_simp

lemma strip_c: "py_strip ''Body Text Of The Page'' = ''Body Text Of The Page''" by code_simp

lemma low_a: "\<not> py_islower ''Annual Report 2024''" by code_simp

lemma low_b: "py_islower ''a lowercase running line''" by code_simp

lemma low_c: "\<not> py_islower ''Body Text Of The Page''" by code_simp

lemma report_candidates:
  "eligible_spans 0 report_pages = [(''Annual Report 2024'', 18, 0), (''Body Text Of The Page'', 10, 1)]"
  by (simp add: report_pages_def eligible_spans_def page_spans_def eligible_def as_candidate_def
      strip_a strip_b strip_c low_a low_b low_c enumerate_eq_zip)

lemma report_sorted:
  "sort_key title_key [(''Annual Report 2024'', 18, 0), (''Body Text Of The Page'', 10, 1)]
     = [(''Annual Report 2024'', 18, 0), (''Body Text Of The Page'', 10, 1)]"
  by (simp add: title_key_def less_eq_prod_def)

lemma report_doc_title: "extract_title report_doc = Inr ''Annual Report 2024''"
  by (simp add: extract_title_readable [OF report_doc_pages] report_candidates cand_text_def title_key_def less_eq_prod_def)

lemma tie_candidates:
  "eligible_spans 0 tie_pages =
     [(''Report Number 17'', 12, 0), (''First Title Line'', 24, 0),
      (''Second Title Line'', 24, 0), (''Third Title Line'', 24, 1)]"
proof -
  have s: "py_strip ''Report Number 17'' = ''Report Number 17''"
      "py_strip ''First Title Line'' = ''First Title Line''"
      "py_strip ''Second Title Line'' = ''Second Title Line''"
      "py_strip ''Third Title Line'' = ''Third Title Line''"
    by code_simp+
  have l: "\<not> py_islower ''Report Number 17''" "\<not> py_islower ''First Title Line''"
      "\<not> py_islower ''Second Title Line''" "\<not> py_islower ''Third Title Line''"
    by code_simp+
  show ?thesis
    by (simp add: tie_pages_def eligible_spans_def page_spans_def eligible_def as_candidate_def
        s l enumerate_eq_zip)
qed

lemma uncased_not_islower: "uncased s \<Longrightarrow> \<not> py_islower s"
  by (auto simp: uncased_def py_islower_def list_all_iff)

lemma single_span_title:
  assumes "eligible s"
  shows "extract_title [Inr [Some [[s]]]] = Inr (py_strip (span_text s))"
proof -
  have r: "take (min 2 (length [Inr [Some [[s]]] :: exn + page])) [Inr [Some [[s]]]] = map Inr [[Some [[s]]]]"
    by simp
  have "eligible_spans 0 [[Some [[s]]]] = [as_candidate 0 s]"
    using assms by (simp add: eligible_spans_def page_spans_def enumerate_eq_zip)
  then show ?thesis
    by (simp add: extract_title_readable [OF r] cand_text_def as_candidate_def)
qed

section \<open>The outline loops as one pass over the heading lines\<close>

lemma outline_line_eq:
  "outline_line k l st = note_entries (line_entries (k, full_line_of l)) st"
  by (simp add: outline_line_def line_entries_def note_entries_def note_entry_def seen_key_def Let_def
      split: option.splits)

lemma note_entries_append: "note_entries (xs @ ys) st = note_entries ys (note_entries xs st)"
  by (simp add: note_entries_def)

lemma fold_outline_lines:
  "fold (outline_line k) ls st
     = note_entries (concat (map (\<lambda>l. line_entries (k, full_line_of l)) ls)) st"
proof (induction ls arbitrary: st)
  case Nil
  show ?case by (simp add: note_entries_def)
next
  case (Cons l ls)
  have "fold (outline_line k) (l # ls) st = fold (outline_line k) ls (outline_line k l st)"
    by simp
  also have "\<dots> = note_entries (concat (map (\<lambda>l. line_entries (k, full_line_of l)) ls))
                      (outline_line k l st)"
    by (rule Cons.IH)
  also have "\<dots> = note_entries (concat (map (\<lambda>l. line_entries (k, full_line_of l)) (l # ls))) st"
    by (simp add: outline_line_eq note_entries_append)
  finally show ?case .
qed

lemma outline_page_eq:
  "outline_page k pg st
     = note_entries (concat (map (\<lambda>l. line_entries (k, full_line_of l)) (page_lines pg))) st"
  unfolding outline_page_def page_lines_def
proof (induction pg arbitrary: st)
  case Nil
  show ?case by (simp add: note_entries_def)
next
  case (Cons b bs)
  have "fold (\<lambda>b. fold (outline_line k) (block_lines b)) (b # bs) st
          = fold (\<lambda>b. fold (outline_line k) (block_lines b)) bs
              (fold (outline_line k) (block_lines b) st)"
    by simp
  also have "\<dots> = note_entries
        (concat (map (\<lambda>l. line_entries (k, full_line_of l)) (concat (map block_lines bs))))
        (fold (outline_line k) (block_lines b) st)"
    by (rule Cons.IH)
  also have "\<dots> = note_entries
        (concat (map (\<lambda>l. line_entries (k, full_line_of l)) (concat (map block_lines (b # bs))))) st"
    by (simp add: fold_outline_lines note_entries_append)
  finally show ?case .
qed

lemma heading_entries_Cons:
  "heading_entries n (pg # pages)
     = concat (map (\<lambda>l. line_entries (n, full_line_of l)) (page_lines pg))
       @ heading_entries (Suc n) pages"
  by (simp add: heading_entries_def doc_lines_def map_concat comp_def)

lemma outline_pages_readable:
  "outline_pages n (map Inr pages) st = Inr (note_entries (heading_entries n pages) st)"
proof (induction pages arbitrary: n st)
  case Nil
  show ?case by (simp add: heading_entries_def doc_lines_def note_entries_def)
next
  case (Cons pg pages)
  show ?case
    by (simp add: Cons.IH outline_page_eq heading_entries_Cons note_entries_append)
qed

lemma outline_pages_Inr:
  "outline_pages n d st = Inr st' \<Longrightarrow> \<exists>pages. d = map Inr pages"
proof (induction d arbitrary: n st)
  case Nil
  then show ?case by simp
next
  case (Cons p d)
  then obtain pg where p: "p = Inr pg"
    and r: "outline_pages (Suc n) d (outline_page n pg st) = Inr st'"
    by (auto split: sum.splits)
  from Cons.IH [OF r] obtain pages where "d = map Inr pages" by blast
  with p have "p # d = map Inr (pg # pages)" by simp
  then show ?case by (rule exI [of _ "pg # pages"])
qed

lemma extract_outline_readable:
  "extract_outline (map Inr pages) = Inr (fst (note_entries (heading_entries 0 pages) ([], {})))"
  by (simp add: extract_outline_def outline_pages_readable)

lemma extract_outline_Inr:
  assumes "extract_outline doc = Inr ol"
  shows "\<exists>pages. doc = map Inr pages \<and> ol = fst (note_entries (heading_entries 0 pages) ([], {}))"
proof -
  from assms obtain st where "outline_pages 0 doc ([], {}) = Inr st"
    by (auto simp: extract_outline_def split: sum.splits)
  then obtain pages where p: "doc = map Inr pages" using outline_pages_Inr by blast
  with assms have "ol = fst (note_entries (heading_entries 0 pages) ([], {}))"
    by (simp add: extract_outline_readable)
  with p show ?thesis by blast
qed

lemma same_seen_key:
  "1 \<le> entry_page e \<Longrightarrow> 1 \<le> entry_page e' \<Longrightarrow> seen_key e = seen_key e' \<longleftrightarrow> entry_key e = entry_key e'"
  by (auto simp: seen_key_def entry_key_def)

lemma note_entry_inv:
  assumes "outline_inv st" "1 \<le> entry_page e"
  shows "outline_inv (note_entry e st)"
proof (cases "seen_key e \<in> snd st")
  case True
  with assms(1) show ?thesis by (simp add: note_entry_def)
next
  case False
  with assms(1) have "\<forall>e' \<in> set (fst st). seen_key e' \<noteq> seen_key e"
    unfolding outline_inv_def by (metis imageI)
  with assms have "entry_key e \<notin> entry_key ` set (fst st)"
    using same_seen_key by (fastforce simp: outline_inv_def)
  with False assms show ?thesis
    by (auto simp: note_entry_def outline_inv_def)
qed

lemma note_entry_keys:
  assumes "outline_inv st" "1 \<le> entry_page e"
  shows "entry_key ` set (fst (note_entry e st)) = insert (entry_key e) (entry_key ` set (fst st))"
proof (cases "seen_key e \<in> snd st")
  case True
  with assms(1) obtain e' where e': "e' \<in> set (fst st)" "seen_key e' = seen_key e"
    by (auto simp: outline_inv_def)
  with assms have "entry_key e' = entry_key e"
    using same_seen_key by (fastforce simp: outline_inv_def)
  with e'(1) have "entry_key e \<in> entry_key ` set (fst st)" by (metis imageI)
  with True show ?thesis by (auto simp: note_entry_def)
next
  case False
  then show ?thesis by (auto simp: note_entry_def)
qed

lemma note_entries_inv:
  "outline_inv st \<Longrightarrow> \<forall>e \<in> set es. 1 \<le> entry_page e \<Longrightarrow> outline_inv (note_entries es st)"
  unfolding note_entries_def
  by (induction es arbitrary: st) (simp_all add: note_entry_inv)

lemma note_entries_keys:
  "outline_inv st \<Longrightarrow> \<forall>e \<in> set es. 1 \<le> entry_page e \<Longrightarrow>
     entry_key ` set (fst (note_entries es st)) = entry_key ` set (fst st) \<union> entry_key ` set es"
  unfolding note_entries_def
proof (induction es arbitrary: st)
  case Nil
  show ?case by simp
next
  case (Cons e es)
  then have i: "outline_inv (note_entry e st)" and p: "\<forall>e \<in> set es. 1 \<le> entry_page e"
    by (simp_all add: note_entry_inv)
  from Cons.IH [OF i p] Cons.prems show ?case
    by (simp add: note_entry_keys)
qed

lemma note_entries_subseq:
  "\<exists>ys. fst (note_entries es st) = fst st @ ys \<and> subseq ys es"
  unfolding note_entries_def
proof (induction es arbitrary: st)
  case Nil
  show ?case by simp
next
  case (Cons e es)
  from Cons.IH [of "note_entry e st"] obtain ys
    where ys: "fst (fold note_entry es (note_entry e st)) = fst (note_entry e st) @ ys" "subseq ys es"
    by blast
  show ?case
  proof (cases "seen_key e \<in> snd st")
    case True
    with ys have "fst (fold note_entry (e # es) st) = fst st @ ys \<and> subseq ys (e # es)"
      by (simp add: note_entry_def list_emb_Cons)
    then show ?thesis by blast
  next
    case False
    with ys have "fst (fold note_entry (e # es) st) = fst st @ (e # ys) \<and> subseq (e # ys) (e # es)"
      by (simp add: note_entry_def)
    then show ?thesis by blast
  qed
qed

lemma line_entries_page: "e \<in> set (line_entries x) \<Longrightarrow> entry_page e = fst x + 1"
  by (auto simp: line_entries_def split: if_splits option.splits)

lemma doc_lines_page: "x \<in> set (doc_lines n pages) \<Longrightarrow> n \<le> fst x"
  by (auto simp: doc_lines_def in_set_enumerate_eq)

lemma heading_entries_page: "e \<in> set (heading_entries n pages) \<Longrightarrow> n + 1 \<le> entry_page e"
  by (auto simp: heading_entries_def dest!: line_entries_page doc_lines_page)

lemma heading_entries_sorted: "sorted (map entry_page (heading_entries n pages))"
proof (induction pages arbitrary: n)
  case Nil
  show ?case by (simp add: heading_entries_def doc_lines_def)
next
  case (Cons pg pages)
  let ?here = "concat (map (\<lambda>l. line_entries (n, full_line_of l)) (page_lines pg))"
  have h: "\<forall>e \<in> set ?here. entry_page e = n + 1"
    by (auto dest!: line_entries_page)
  then have "map entry_page ?here = replicate (length ?here) (n + 1)"
    by (simp add: map_replicate_const [symmetric] cong: map_cong)
  then have s: "sorted (map entry_page ?here)" by (simp add: sorted_replicate)
  have "\<forall>e \<in> set (heading_entries (Suc n) pages). n + 1 \<le> entry_page e"
    using heading_entries_page by fastforce
  with h s Cons.IH [of "Suc n"] show ?case
    by (auto simp: heading_entries_Cons sorted_append)
qed

lemma subseq_sorted: "subseq xs ys \<Longrightarrow> sorted (map f ys) \<Longrightarrow> sorted (map f xs)"
proof -
  assume "subseq xs ys" and s: "sorted (map f ys)"
  then have "subseq (map f xs) (map f ys)" by (simp add: subseq_map)
  then obtain N where "map f xs = nths (map f ys) N" by (auto simp: subseq_conv_nths)
  with s show ?thesis by (simp add: sorted_nths)
qed

lemma conclusion_outline:
  "extract_outline (map Inr conclusion_pages)
     = Inr [\<lparr>entry_level = H1, entry_text = ''CONCLUSION'', entry_page = 1\<rparr>,
            \<lparr>entry_level = H2, entry_text = ''a) item'', entry_page = 1\<rparr>,
            \<lparr>entry_level = H1, entry_text = ''CONCLUSION'', entry_page = 2\<rparr>]"
  unfolding conclusion_pages_def by code_simp

lemma conclusion_heading_entries:
  "heading_entries 0 conclusion_pages
     = [\<lparr>entry_level = H1, entry_text = ''CONCLUSION'', entry_page = 1\<rparr>,
        \<lparr>entry_level = H1, entry_text = ''Conclusion'', entry_page = 1\<rparr>,
        \<lparr>entry_level = H2, entry_text = ''a) item'', entry_page = 1\<rparr>,
        \<lparr>entry_level = H1, entry_text = ''A) ITEM'', entry_page = 1\<rparr>,
        \<lparr>entry_level = H1, entry_text = ''CONCLUSION'', entry_page = 2\<rparr>]"
  unfolding conclusion_pages_def by code_simp

lemma order_outline:
  "extract_outline (map Inr order_pages)
     = Inr [\<lparr>entry_level = H2, entry_text = ''2.1 Scope'', entry_page = 1\<rparr>,
            \<lparr>entry_level = H2, entry_text = ''1.1 Goals'', entry_page = 1\<rparr>,
            \<lparr>entry_level = H1, entry_text = ''INTRODUCTION'', entry_page = 3\<rparr>]"
  unfolding order_pages_def by code_simp

lemma heading_entries_pages: "\<forall>e \<in> set (heading_entries 0 pages). 1 \<le> entry_page e"
  using heading_entries_page [of _ 0 pages] by auto

lemma outline_inv_init: "outline_inv ([], {})"
  by (simp add: outline_inv_def)

lemma heading_entries_mem:
  assumes "k < length pages" "l \<in> set (page_lines (pages ! k))"
    and "full_line_of l \<noteq> []" "is_heading (full_line_of l) = Some h"
  shows "\<lparr>entry_level = h, entry_text = full_line_of l, entry_page = k + 1\<rparr>
           \<in> set (heading_entries 0 pages)"
proof -
  from assms(1) have "(k, pages ! k) \<in> set (enumerate 0 pages)"
    by (simp add: in_set_enumerate_eq)
  with assms(2) have "(k, full_line_of l) \<in> set (doc_lines 0 pages)"
    unfolding doc_lines_def by force
  moreover from assms(3,4)
  have "line_entries (k, full_line_of l)
          = [\<lparr>entry_level = h, entry_text = full_line_of l, entry_page = k + 1\<rparr>]"
    by (simp add: line_entries_def)
  ultimately show ?thesis unfolding heading_entries_def by force
qed

lemma report_doc_outline: "extract_outline report_doc = Inl (Exception ''unreadable page'')"
  unfolding report_doc_def by code_simp

lemma title_failure_is_outline_failure_pages:
  "title_candidates n (take k d) = Inl e \<Longrightarrow> outline_pages n d st = Inl e"
proof (induction d arbitrary: n k st)
  case Nil
  then show ?case by simp
next
  case (Cons p d)
  show ?case
  proof (cases k)
    case 0
    with Cons.prems show ?thesis by simp
  next
    case (Suc k')
    show ?thesis
    proof (cases p)
      case (Inl e')
      with Suc Cons.prems show ?thesis by simp
    next
      case (Inr blocks)
      with Suc Cons.prems have "title_candidates (Suc n) (take k' d) = Inl e"
        by (simp split: sum.splits)
      then have "outline_pages (Suc n) d (outline_page n blocks st) = Inl e"
        by (rule Cons.IH)
      with Inr show ?thesis by simp
    qed
  qed
qed

lemma title_failure_is_outline_failure:
  assumes "extract_title doc = Inl e"
  shows "extract_outline doc = Inl e"
proof -
  from assms have "title_candidates 0 (take (min 2 (length doc)) doc) = Inl e"
    by (simp add: extract_title_def split: sum.splits if_splits)
  then have "outline_pages 0 doc ([], {}) = Inl e"
    by (rule title_failure_is_outline_failure_pages)
  then show ?thesis by (simp add: extract_outline_def)
qed

lemma full_line_of_trimmed: "py_strip (full_line_of l) = full_line_of l"
  by (simp add: full_line_of_def py_strip_idem)

lemma keep_new_keys:
  assumes "\<forall>x \<in> set es. 1 \<le> entry_page x" "1 \<le> entry_page e"
  shows "filter (\<lambda>x. seen_key x \<notin> insert (seen_key e) S) es
           = filter (\<lambda>x. entry_key x \<noteq> entry_key e) (filter (\<lambda>x. seen_key x \<notin> S) es)"
proof -
  have "filter (\<lambda>x. seen_key x \<notin> insert (seen_key e) S) es
          = filter (\<lambda>x. seen_key x \<notin> S \<and> entry_key x \<noteq> entry_key e) es"
    using assms by (intro filter_cong refl) (auto simp: same_seen_key)
  then show ?thesis by (simp add: conj_commute)
qed

lemma note_entries_first:
  "\<forall>e \<in> set es. 1 \<le> entry_page e \<Longrightarrow>
     fst (note_entries es st) = fst st @ first_by_key (filter (\<lambda>e. seen_key e \<notin> snd st) es)"
  unfolding note_entries_def
proof (induction es arbitrary: st)
  case Nil
  show ?case by simp
next
  case (Cons e es)
  then have p: "\<forall>x \<in> set es. 1 \<le> entry_page x" and pe: "1 \<le> entry_page e" by simp_all
  show ?case
  proof (cases "seen_key e \<in> snd st")
    case True
    with Cons.IH [OF p, of st] show ?thesis by (simp add: note_entry_def)
  next
    case False
    have "fst (fold note_entry (e # es) st)
            = fst (fold note_entry es (fst st @ [e], insert (seen_key e) (snd st)))"
      using False by (simp add: note_entry_def)
    also have "\<dots> = (fst st @ [e])
            @ first_by_key (filter (\<lambda>x. seen_key x \<notin> insert (seen_key e) (snd st)) es)"
      using Cons.IH [OF p, of "(fst st @ [e], insert (seen_key e) (snd st))"] by simp
    also have "\<dots> = fst st
            @ first_by_key (filter (\<lambda>x. seen_key x \<notin> snd st) (e # es))"
    proof -
      have a: "filter (\<lambda>x. seen_key x \<notin> snd st) (e # es)
                 = e # filter (\<lambda>x. seen_key x \<notin> snd st) es"
        using False by simp
      show ?thesis
        by (simp only: a keep_new_keys [OF p pe] first_by_key.simps append_assoc
            append_Cons append_Nil)
    qed
    finally show ?thesis .
  qed
qed


section \<open>The inferred title\<close>

text \<open>
  C2: when the first \<open>min 2 page_count\<close> pages are readable, the candidates that
  \<open>extract_title\<close> collects are exactly the eligible spans of these pages (trimmed text
  of more than 10 and fewer than 150 characters that is not lowercase), in reading
  order; with no candidate the title is the empty string; otherwise it is the text of a
  candidate of the largest font size and, among those of that size, of the smallest page
  index.
\<close>

theorem extract_title_spec:
  assumes "take (min 2 (length doc)) doc = map Inr pages"
  shows "title_candidates 0 (take (min 2 (length doc)) doc) = Inr (eligible_spans 0 pages)
         \<and> (eligible_spans 0 pages = [] \<longrightarrow> extract_title doc = Inr '''')
         \<and> (eligible_spans 0 pages \<noteq> [] \<longrightarrow>
              (\<exists>c \<in> set (eligible_spans 0 pages).
                 extract_title doc = Inr (cand_text c)
                 \<and> (\<forall>c' \<in> set (eligible_spans 0 pages).
                       cand_size c' \<le> cand_size c
                       \<and> (cand_size c' = cand_size c \<longrightarrow> cand_page c \<le> cand_page c'))))"
proof (intro conjI impI)
  show "title_candidates 0 (take (min 2 (length doc)) doc) = Inr (eligible_spans 0 pages)"
    by (simp add: assms title_candidates_readable)
  show "extract_title doc = Inr ''''" if "eligible_spans 0 pages = []"
    using that by (simp add: extract_title_readable [OF assms])
next
  let ?cs = "eligible_spans 0 pages"
  let ?c = "hd (sort_key title_key ?cs)"
  assume ne: "?cs \<noteq> []"
  then have mem: "?c \<in> set ?cs" by (rule hd_sort_key_in)
  from ne have r: "extract_title doc = Inr (cand_text ?c)"
    by (simp add: extract_title_readable [OF assms])
  have "\<forall>c' \<in> set ?cs. title_key ?c \<le> title_key c'"
    by (simp add: hd_sort_key_le)
  then have "\<forall>c' \<in> set ?cs. cand_size c' \<le> cand_size ?c
                \<and> (cand_size c' = cand_size ?c \<longrightarrow> cand_page ?c \<le> cand_page c')"
    by (simp add: title_key_le) (metis less_le_not_le order_refl)
  with mem r show "\<exists>c \<in> set ?cs. extract_title doc = Inr (cand_text c)
                 \<and> (\<forall>c' \<in> set ?cs. cand_size c' \<le> cand_size c
                       \<and> (cand_size c' = cand_size c \<longrightarrow> cand_page c \<le> cand_page c'))"
    by blast
qed

theorem extract_title_spec_witness:
  "take (min 2 (length report_doc)) report_doc = map Inr report_pages
   \<and> title_candidates 0 (take (min 2 (length report_doc)) report_doc)
       = Inr [(''Annual Report 2024'', 18, 0), (''Body Text Of The Page'', 10, 1)]
   \<and> extract_title report_doc = Inr ''Annual Report 2024''"
proof -
  note t = extract_title_spec [OF report_doc_pages]
  from t have 1: "title_candidates 0 (take (min 2 (length report_doc)) report_doc)
       = Inr [(''Annual Report 2024'', 18, 0), (''Body Text Of The Page'', 10, 1)]"
    by (simp only: report_candidates)
  from t obtain c where c: "c \<in> set (eligible_spans 0 report_pages)"
      "extract_title report_doc = Inr (cand_text c)"
      "\<forall>c' \<in> set (eligible_spans 0 report_pages). cand_size c' \<le> cand_size c"
    unfolding report_candidates by auto
  from c(1,3) have "c = (''Annual Report 2024'', 18, 0)"
    unfolding report_candidates by (auto simp: cand_size_def)
  with c(2) have 2: "extract_title report_doc = Inr ''Annual Report 2024''"
    by (simp add: cand_text_def)
  from report_doc_pages 1 2 show ?thesis by blast
qed

text \<open>
  C9: the candidate returned is the first one, in reading order, among those that share
  the largest font size and the smallest page index at that size: the sort is stable.
  The title depends on the first two pages only.
\<close>

theorem extract_title_first_among_ties:
  assumes readable: "take (min 2 (length doc)) doc = map Inr pages"
    and i: "i < length (eligible_spans 0 pages)"
    and largest: "\<forall>c' \<in> set (eligible_spans 0 pages).
                    cand_size c' \<le> cand_size (eligible_spans 0 pages ! i)"
    and earliest: "\<forall>c' \<in> set (eligible_spans 0 pages).
                    cand_size c' = cand_size (eligible_spans 0 pages ! i)
                      \<longrightarrow> cand_page (eligible_spans 0 pages ! i) \<le> cand_page c'"
    and first: "\<forall>j<i. \<not> (cand_size (eligible_spans 0 pages ! j) = cand_size (eligible_spans 0 pages ! i)
                         \<and> cand_page (eligible_spans 0 pages ! j) = cand_page (eligible_spans 0 pages ! i))"
  shows "extract_title doc = Inr (cand_text (eligible_spans 0 pages ! i))
         \<and> extract_title (take 2 doc) = extract_title doc"
proof -
  let ?cs = "eligible_spans 0 pages"
  from largest earliest have "\<forall>c' \<in> set ?cs. title_key (?cs ! i) \<le> title_key c'"
    unfolding title_key_le by (metis less_le)
  moreover from first have "\<forall>j<i. title_key (?cs ! j) \<noteq> title_key (?cs ! i)"
    unfolding title_key_eq by blast
  ultimately have "hd (sort_key title_key ?cs) = ?cs ! i"
    using i by (intro hd_sort_key_stable) auto
  moreover from i have "?cs \<noteq> []" by auto
  ultimately have "extract_title doc = Inr (cand_text (?cs ! i))"
    by (simp add: extract_title_readable [OF readable])
  then show ?thesis by (simp add: extract_title_take)
qed

theorem extract_title_first_among_ties_witness:
  "take (min 2 (length (map Inr tie_pages :: document))) (map Inr tie_pages) = map Inr tie_pages
   \<and> eligible_spans 0 tie_pages =
       [(''Report Number 17'', 12, 0), (''First Title Line'', 24, 0),
        (''Second Title Line'', 24, 0), (''Third Title Line'', 24, 1)]
   \<and> extract_title (map Inr tie_pages) = Inr ''First Title Line''"
proof -
  have r: "take (min 2 (length (map Inr tie_pages :: document))) (map Inr tie_pages) = map Inr tie_pages"
    by (simp add: tie_pages_def)
  have i: "1 < length (eligible_spans 0 tie_pages)" by (simp add: tie_candidates)
  have a: "\<forall>c' \<in> set (eligible_spans 0 tie_pages).
             cand_size c' \<le> cand_size (eligible_spans 0 tie_pages ! 1)"
    by (simp add: tie_candidates cand_size_def)
  have b: "\<forall>c' \<in> set (eligible_spans 0 tie_pages).
             cand_size c' = cand_size (eligible_spans 0 tie_pages ! 1)
               \<longrightarrow> cand_page (eligible_spans 0 tie_pages ! 1) \<le> cand_page c'"
    by (simp add: tie_candidates cand_size_def cand_page_def)
  have c: "\<forall>j<1. \<not> (cand_size (eligible_spans 0 tie_pages ! j) = cand_size (eligible_spans 0 tie_pages ! 1)
                  \<and> cand_page (eligible_spans 0 tie_pages ! j) = cand_page (eligible_spans 0 tie_pages ! 1))"
    by (simp add: tie_candidates cand_size_def cand_page_def)
  from extract_title_first_among_ties [OF r i a b c]
  have "extract_title (map Inr tie_pages) = Inr ''First Title Line''"
    by (simp add: tie_candidates cand_text_def)
  with r tie_candidates show ?thesis by blast
qed

text \<open>
  C10: a span of the first two pages whose trimmed text has no cased character and 11 to
  149 characters passes the filter of \<open>extract_title\<close>, since \<open>islower\<close> is false of a
  string with no lowercase character: it is among the candidates collected, and a
  document that has this span alone gets its trimmed text as the title.
\<close>

theorem uncased_span_is_candidate:
  assumes readable: "take (min 2 (length doc)) doc = map Inr pages"
    and k: "k < length pages"
    and s: "s \<in> set (page_spans (pages ! k))"
    and uncased: "uncased (py_strip (span_text s))"
    and len: "11 \<le> length (py_strip (span_text s))" "length (py_strip (span_text s)) \<le> 149"
  shows "k < 2
         \<and> as_candidate k s \<in> set (eligible_spans 0 pages)
         \<and> title_candidates 0 (take (min 2 (length doc)) doc) = Inr (eligible_spans 0 pages)
         \<and> extract_title [Inr [Some [[s]]]] = Inr (py_strip (span_text s))"
proof -
  from uncased len have e: "eligible s"
    by (simp add: eligible_def uncased_not_islower)
  have "length (take (min 2 (length doc)) doc) = length (map Inr pages :: document)"
    by (simp only: readable)
  with k have "k < 2" by simp
  moreover from k s e have "as_candidate k s \<in> set (eligible_spans 0 pages)"
    unfolding eligible_spans_set by blast
  moreover have "title_candidates 0 (take (min 2 (length doc)) doc) = Inr (eligible_spans 0 pages)"
    by (simp add: readable title_candidates_readable)
  moreover from e have "extract_title [Inr [Some [[s]]]] = Inr (py_strip (span_text s))"
    by (rule single_span_title)
  ultimately show ?thesis by blast
qed

theorem uncased_span_is_candidate_witness:
  "take (min 2 (length [Inr [Some [[figures_span]]] :: exn + page])) [Inr [Some [[figures_span]]]]
      = map Inr [[Some [[figures_span]]]]
   \<and> (0::nat) < length [[Some [[figures_span]]]]
   \<and> figures_span \<in> set (page_spans ([[Some [[figures_span]]]] ! 0))
   \<and> uncased (py_strip (span_text figures_span))
   \<and> 11 \<le> length (py_strip (span_text figures_span))
   \<and> length (py_strip (span_text figures_span)) \<le> 149
   \<and> extract_title [Inr [Some [[figures_span]]]] = Inr ''2024-2025 / 12.5%''"
proof -
  have st: "py_strip (span_text figures_span) = ''2024-2025 / 12.5%''"
    unfolding figures_span_def by code_simp
  have r: "take (min 2 (length [Inr [Some [[figures_span]]] :: exn + page])) [Inr [Some [[figures_span]]]]
      = map Inr [[Some [[figures_span]]]]" by simp
  have k: "(0::nat) < length [[Some [[figures_span]]]]" by simp
  have s: "figures_span \<in> set (page_spans ([[Some [[figures_span]]]] ! 0))"
    by (simp add: page_spans_def)
  have u: "uncased (py_strip (span_text figures_span))" unfolding st by code_simp
  have l1: "11 \<le> length (py_strip (span_text figures_span))" unfolding st by simp
  have l2: "length (py_strip (span_text figures_span)) \<le> 149" unfolding st by simp
  from uncased_span_is_candidate [OF r k s u l1 l2]
  have "extract_title [Inr [Some [[figures_span]]]] = Inr ''2024-2025 / 12.5%''"
    by (simp add: st)
  with r k s u l1 l2 show ?thesis by blast
qed

section \<open>The length and word-count gate\<close>

text \<open>
  C4: a line text is trimmed: the outline builder trims the joined text of a line before
  it classifies it. A line text that is longer than 150 characters, or that has more
  than 20 whitespace-delimited words, gets no heading level, whatever pattern or keyword
  it contains.
\<close>

theorem is_heading_gate:
  assumes "py_strip t = t"
    and "150 < length t \<or> 20 < length (py_split t)"
  shows "is_heading t = None"
  using assms by (auto simp: is_heading_def Let_def)

theorem is_heading_gate_witness:
  "py_strip (''Chapter 1 '' @ replicate 150 CHR ''A'') = ''Chapter 1 '' @ replicate 150 CHR ''A''
   \<and> (150 < length (''Chapter 1 '' @ replicate 150 CHR ''A'')
        \<or> 20 < length (py_split (''Chapter 1 '' @ replicate 150 CHR ''A'')))
   \<and> any_match h1_patterns (''Chapter 1 '' @ replicate 150 CHR ''A'')
   \<and> is_heading (''Chapter 1 '' @ replicate 150 CHR ''A'') = None"
proof -
  have a: "py_strip (''Chapter 1 '' @ replicate 150 CHR ''A'') = ''Chapter 1 '' @ replicate 150 CHR ''A''"
    by code_simp
  have b: "150 < length (''Chapter 1 '' @ replicate 150 CHR ''A'')
        \<or> 20 < length (py_split (''Chapter 1 '' @ replicate 150 CHR ''A''))"
    by simp
  have c: "any_match h1_patterns (''Chapter 1 '' @ replicate 150 CHR ''A'')"
    by code_simp
  from is_heading_gate [OF a b] a b c show ?thesis by blast
qed

section \<open>Precedence of the patterns\<close>

text \<open>
  C5: a text that starts with \<open>a.b.c\<close> for integers \<open>a\<close>, \<open>b\<close>, \<open>c\<close>, or with a
  parenthesised integer \<open>(a)\<close>, and that passes the length and word-count gate, is
  classified H3. The H3 patterns are tried first, so this holds also when the H2 pattern
  \<open>a.b\<close> or an H1 pattern matches the same text.
\<close>

theorem h3_classification:
  assumes shape: "(is_int a \<and> is_int b \<and> is_int c \<and> prefix (a @ ''.'' @ b @ ''.'' @ c) t)
                  \<or> (is_int a \<and> prefix (''('' @ a @ '')'') t)"
    and gate: "length (py_strip t) \<le> 150" "length (py_split t) \<le> 20"
  shows "is_heading t = Some H3"
proof -
  from shape have "any_match h3_patterns (py_strip t)"
  proof
    assume h: "is_int a \<and> is_int b \<and> is_int c \<and> prefix (a @ ''.'' @ b @ ''.'' @ c) t"
    let ?p = "a @ ''.'' @ b @ ''.'' @ c"
    from h have "hd ?p = hd a" "last ?p = last c" "?p \<noteq> []"
      using is_int_hd by auto
    with h have "\<not> is_space (hd ?p)" "\<not> is_space (last ?p)"
      using is_int_hd decimal_not_space by auto
    with h have "prefix ?p (py_strip t)" by (intro py_strip_prefix) auto
    with h show ?thesis unfolding any_match_h3 by blast
  next
    assume h: "is_int a \<and> prefix (''('' @ a @ '')'') t"
    let ?p = "''('' @ a @ '')''"
    have "\<not> is_space (hd ?p)" "\<not> is_space (last ?p)" by (simp_all add: paren_not_space)
    with h have "prefix ?p (py_strip t)" by (intro py_strip_prefix) auto
    with h show ?thesis unfolding any_match_h3 by blast
  qed
  then show ?thesis using gate by (simp add: is_heading_h3)
qed

theorem h3_classification_witness:
  "((is_int ''1'' \<and> is_int ''2'' \<and> is_int ''3'' \<and> prefix (''1'' @ ''.'' @ ''2'' @ ''.'' @ ''3'') ''1.2.3 Scope'')
     \<or> (is_int ''1'' \<and> prefix (''('' @ ''1'' @ '')'') ''1.2.3 Scope''))
   \<and> length (py_strip ''1.2.3 Scope'') \<le> 150 \<and> length (py_split ''1.2.3 Scope'') \<le> 20
   \<and> any_match h2_patterns ''1.2.3 Scope''
   \<and> is_heading ''1.2.3 Scope'' = Some H3"
proof -
  have s: "(is_int ''1'' \<and> is_int ''2'' \<and> is_int ''3'' \<and> prefix (''1'' @ ''.'' @ ''2'' @ ''.'' @ ''3'') ''1.2.3 Scope'')
     \<or> (is_int ''1'' \<and> prefix (''('' @ ''1'' @ '')'') ''1.2.3 Scope'')"
    by (simp add: is_int_def is_decimal_def code_point_def)
  have g1: "length (py_strip ''1.2.3 Scope'') \<le> 150" by code_simp
  have g2: "length (py_split ''1.2.3 Scope'') \<le> 20" by code_simp
  have m: "any_match h2_patterns ''1.2.3 Scope''" by code_simp
  from h3_classification [OF s g1 g2] s g1 g2 m show ?thesis by blast
qed

text \<open>
  Without the gate the statement fails: 21 words after \<open>1.2.3\<close> give no level.
\<close>

theorem h3_classification_counterexample:
  "is_int ''1'' \<and> is_int ''2'' \<and> is_int ''3''
   \<and> prefix (''1'' @ ''.'' @ ''2'' @ ''.'' @ ''3'') ''1.2.3 a b c d e f g h i j k l m n o p q r s t''
   \<and> is_heading ''1.2.3 a b c d e f g h i j k l m n o p q r s t'' = None"
  by code_simp

section \<open>Subsection numbers and lettered items\<close>

text \<open>
  C6: a text that passes the gate and starts with \<open>a.b\<close> for integers \<open>a\<close>, \<open>b\<close>
  but with no \<open>a.b.c\<close>, or that starts with \<open>(x)\<close> or \<open>x)\<close> for a letter \<open>x\<close> of
  \<open>a\<close> to \<open>z\<close>, is classified H2; a line with this text alone on page \<open>n + 1\<close> gives
  the one outline entry with level H2, the trimmed text and page \<open>n + 1\<close>. At
  \<open>1.2 Background\<close> on page 3 this is the scenario of the specification.
\<close>

theorem h2_classification:
  assumes shape:
    "(is_int a \<and> is_int b \<and> prefix (a @ ''.'' @ b) t
        \<and> \<not> (\<exists>a' b' c'. is_int a' \<and> is_int b' \<and> is_int c' \<and> prefix (a' @ ''.'' @ b' @ ''.'' @ c') t))
     \<or> (is_az x \<and> (prefix [CHR ''('', x, CHR '')''] t \<or> prefix [x, CHR '')''] t))"
    and gate: "length (py_strip t) \<le> 150" "length (py_split t) \<le> 20"
  shows "is_heading t = Some H2
         \<and> extract_outline (replicate n (Inr []) @ [Inr [Some [[\<lparr>span_text = t, span_size = z\<rparr>]]]])
             = Inr [\<lparr>entry_level = H2, entry_text = py_strip t, entry_page = n + 1\<rparr>]"
proof -
  let ?u = "py_strip t"
  from shape consider
    (dotted) "is_int a" "is_int b" "prefix (a @ ''.'' @ b) t"
      "\<not> (\<exists>a' b' c'. is_int a' \<and> is_int b' \<and> is_int c' \<and> prefix (a' @ ''.'' @ b' @ ''.'' @ c') t)"
    | (paren) "is_az x" "prefix [CHR ''('', x, CHR '')''] t"
    | (letter) "is_az x" "prefix [x, CHR '')''] t"
    by blast
  then have "\<not> any_match h3_patterns ?u \<and> any_match h2_patterns ?u"
  proof cases
    case dotted
    let ?p = "a @ ''.'' @ b"
    from dotted(1,2) have hl: "hd ?p = hd a" "last ?p = last b" "?p \<noteq> []" "is_decimal (hd a)"
      using is_int_hd by auto
    with dotted(2) have sp: "\<not> is_space (hd ?p)" "\<not> is_space (last ?p)"
      using is_int_hd decimal_not_space by auto
    with dotted(3) have pu: "prefix ?p ?u" by (intro py_strip_prefix) auto
    then have hu: "hd ?u = hd a" using prefix_hd hl by metis
    from dotted(3) hl have "t \<noteq> []" "hd t = hd a" using prefix_hd [of ?p t] by auto
    with hl(4) have ut: "prefix ?u t" by (intro py_strip_is_prefix) (auto simp: decimal_not_space)
    have "\<not> (\<exists>a' b' c'. is_int a' \<and> is_int b' \<and> is_int c' \<and> prefix (a' @ ''.'' @ b' @ ''.'' @ c') ?u)"
      using dotted(4) ut prefix_order.trans by blast
    moreover have "\<not> (\<exists>a'. is_int a' \<and> prefix (''('' @ a' @ '')'') ?u)"
    proof
      assume "\<exists>a'. is_int a' \<and> prefix (''('' @ a' @ '')'') ?u"
      then obtain a' where "prefix (''('' @ a' @ '')'') ?u" by blast
      then have "hd ?u = CHR ''(''" using prefix_hd by fastforce
      with hu hl(4) show False using decimal_not_paren by auto
    qed
    ultimately have "\<not> any_match h3_patterns ?u" unfolding any_match_h3 by blast
    moreover from dotted(1,2) pu have "any_match h2_patterns ?u" unfolding any_match_h2 by blast
    ultimately show ?thesis ..
  next
    case paren
    let ?p = "[CHR ''('', x, CHR '')'']"
    have "\<not> is_space (hd ?p)" "\<not> is_space (last ?p)" by (simp_all add: paren_not_space)
    with paren(2) have pu: "prefix ?p ?u" by (intro py_strip_prefix) auto
    then have hu: "hd ?u = CHR ''(''" and u1: "?u ! 1 = x"
      using prefix_hd [of ?p ?u] prefix_nth [of ?p ?u 1] by auto
    have "\<not> (\<exists>a' b' c'. is_int a' \<and> is_int b' \<and> is_int c' \<and> prefix (a' @ ''.'' @ b' @ ''.'' @ c') ?u)"
    proof
      assume "\<exists>a' b' c'. is_int a' \<and> is_int b' \<and> is_int c' \<and> prefix (a' @ ''.'' @ b' @ ''.'' @ c') ?u"
      then obtain a' r where "is_int a'" "prefix (a' @ r) ?u" by blast
      then have "is_decimal (hd ?u)" using is_int_hd prefix_hd [of "a' @ r" ?u] by auto
      with hu show False by (simp add: paren_not_space)
    qed
    moreover have "\<not> (\<exists>a'. is_int a' \<and> prefix (''('' @ a' @ '')'') ?u)"
    proof
      assume "\<exists>a'. is_int a' \<and> prefix (''('' @ a' @ '')'') ?u"
      then obtain a' where a': "is_int a'" "prefix (''('' @ a' @ '')'') ?u" by blast
      then have "a' \<noteq> []" "is_decimal (hd a')" using is_int_hd by auto
      then have "(''('' @ a' @ '')'') ! 1 = hd a'" by (cases a') auto
      with a'(2) have "?u ! 1 = hd a'" using prefix_nth [of "''('' @ a' @ '')''" ?u 1] by simp
      with u1 \<open>is_decimal (hd a')\<close> paren(1) show False using az_not_decimal by auto
    qed
    ultimately have "\<not> any_match h3_patterns ?u" unfolding any_match_h3 by blast
    moreover from paren(1) pu have "any_match h2_patterns ?u" unfolding any_match_h2 by blast
    ultimately show ?thesis ..
  next
    case letter
    let ?p = "[x, CHR '')'']"
    from letter(1) have "\<not> is_space (hd ?p)" "\<not> is_space (last ?p)"
      by (simp_all add: paren_not_space az_not_space)
    with letter(2) have pu: "prefix ?p ?u" by (intro py_strip_prefix) auto
    then have hu: "hd ?u = x" using prefix_hd [of ?p ?u] by auto
    have "\<not> (\<exists>a' b' c'. is_int a' \<and> is_int b' \<and> is_int c' \<and> prefix (a' @ ''.'' @ b' @ ''.'' @ c') ?u)"
    proof
      assume "\<exists>a' b' c'. is_int a' \<and> is_int b' \<and> is_int c' \<and> prefix (a' @ ''.'' @ b' @ ''.'' @ c') ?u"
      then obtain a' r where "is_int a'" "prefix (a' @ r) ?u" by blast
      then have "is_decimal (hd ?u)" using is_int_hd prefix_hd [of "a' @ r" ?u] by auto
      with hu letter(1) show False using az_not_decimal by auto
    qed
    moreover have "\<not> (\<exists>a'. is_int a' \<and> prefix (''('' @ a' @ '')'') ?u)"
    proof
      assume "\<exists>a'. is_int a' \<and> prefix (''('' @ a' @ '')'') ?u"
      then obtain a' where "prefix (''('' @ a' @ '')'') ?u" by blast
      then have "hd ?u = CHR ''(''" using prefix_hd by fastforce
      with hu letter(1) show False using az_not_paren by auto
    qed
    ultimately have "\<not> any_match h3_patterns ?u" unfolding any_match_h3 by blast
    moreover from letter(1) pu have "any_match h2_patterns ?u" unfolding any_match_h2 by blast
    ultimately show ?thesis ..
  qed
  with gate have h: "is_heading t = Some H2" by (simp add: is_heading_h2)
  from h single_line_outline [OF h] show ?thesis by simp
qed

theorem h2_classification_witness:
  "((is_int ''1'' \<and> is_int ''2'' \<and> prefix (''1'' @ ''.'' @ ''2'') ''1.2 Background''
       \<and> \<not> (\<exists>a' b' c'. is_int a' \<and> is_int b' \<and> is_int c'
              \<and> prefix (a' @ ''.'' @ b' @ ''.'' @ c') ''1.2 Background''))
     \<or> (is_az CHR ''a'' \<and> (prefix [CHR ''('', CHR ''a'', CHR '')''] ''1.2 Background''
           \<or> prefix [CHR ''a'', CHR '')''] ''1.2 Background'')))
   \<and> length (py_strip ''1.2 Background'') \<le> 150 \<and> length (py_split ''1.2 Background'') \<le> 20
   \<and> is_heading ''1.2 Background'' = Some H2
   \<and> extract_outline [Inr [], Inr [], Inr [Some [[\<lparr>span_text = ''1.2 Background'', span_size = 12\<rparr>]]]]
       = Inr [\<lparr>entry_level = H2, entry_text = ''1.2 Background'', entry_page = 3\<rparr>]"
proof -
  have n3: "\<not> any_match h3_patterns ''1.2 Background''" by code_simp
  then have neg: "\<not> (\<exists>a' b' c'. is_int a' \<and> is_int b' \<and> is_int c'
              \<and> prefix (a' @ ''.'' @ b' @ ''.'' @ c') ''1.2 Background'')"
    unfolding any_match_h3 by blast
  have pos: "is_int ''1'' \<and> is_int ''2'' \<and> prefix (''1'' @ ''.'' @ ''2'') ''1.2 Background''"
    by (simp add: is_int_def is_decimal_def code_point_def)
  from pos neg have s:
    "(is_int ''1'' \<and> is_int ''2'' \<and> prefix (''1'' @ ''.'' @ ''2'') ''1.2 Background''
       \<and> \<not> (\<exists>a' b' c'. is_int a' \<and> is_int b' \<and> is_int c'
              \<and> prefix (a' @ ''.'' @ b' @ ''.'' @ c') ''1.2 Background''))
     \<or> (is_az CHR ''a'' \<and> (prefix [CHR ''('', CHR ''a'', CHR '')''] ''1.2 Background''
           \<or> prefix [CHR ''a'', CHR '')''] ''1.2 Background''))"
    by blast
  have g1: "length (py_strip ''1.2 Background'') \<le> 150" by code_simp
  have g2: "length (py_split ''1.2 Background'') \<le> 20" by code_simp
  have st: "py_strip ''1.2 Background'' = ''1.2 Background''" by code_simp
  have r: "replicate 2 (Inr []) @ [Inr [Some [[\<lparr>span_text = ''1.2 Background'', span_size = 12\<rparr>]]]]
        = ([Inr [], Inr [], Inr [Some [[\<lparr>span_text = ''1.2 Background'', span_size = 12\<rparr>]]]] :: document)"
    by (simp add: numeral_2_eq_2)
  from h2_classification [OF s g1 g2, of 2 12] s g1 g2 show ?thesis
    unfolding st r by simp
qed

section \<open>Uppercase lines\<close>

text \<open>
  C7: a text made of uppercase letters and blanks only, of length at least 5, that has
  at least one letter and passes the length and word-count gate, is classified H1: no
  H3 or H2 pattern can match it, and either an H1 pattern does or the text is uppercase
  as a whole.
\<close>

theorem caps_classification:
  assumes caps: "caps_and_spaces t"
    and len: "5 \<le> length t"
    and letter: "list_ex is_upper_char t"
    and gate: "length (py_strip t) \<le> 150" "length (py_split t) \<le> 20"
  shows "is_heading t = Some H1"
proof -
  let ?u = "py_strip t"
  from letter obtain c where c: "c \<in> set t" "is_upper_char c" by (auto simp: list_ex_iff)
  then have cu: "c \<in> set ?u" by (simp add: py_strip_keeps upper_not_space)
  then have ne: "?u \<noteq> []" by auto
  have all: "\<forall>x \<in> set ?u. is_upper_char x \<or> x = CHR '' ''"
    using caps py_strip_subset [of t] by (auto simp: caps_and_spaces_def list_all_iff)
  from ne have "hd ?u \<in> set ?u" by simp
  moreover from ne have "\<not> is_space (hd ?u)" by (rule py_strip_hd)
  moreover have "is_space CHR '' ''" by (simp add: is_space_def code_point_def)
  ultimately have up: "is_upper_char (hd ?u)" using all by metis
  from ne up have no: "\<not> any_match h3_patterns ?u" "\<not> any_match h2_patterns ?u"
    by (rule no_h3_h2_on_upper)+
  have "py_isupper ?u"
    unfolding py_isupper_def using cu c(2) all upper_not_lower blank_not_lower by blast
  with no gate show ?thesis
    by (simp add: is_heading_def Let_def py_split_strip)
qed

theorem caps_classification_witness:
  "caps_and_spaces ''TABLE OF FIGURES'' \<and> 5 \<le> length ''TABLE OF FIGURES''
   \<and> list_ex is_upper_char ''TABLE OF FIGURES''
   \<and> length (py_strip ''TABLE OF FIGURES'') \<le> 150 \<and> length (py_split ''TABLE OF FIGURES'') \<le> 20
   \<and> is_heading ''TABLE OF FIGURES'' = Some H1"
proof -
  have a: "caps_and_spaces ''TABLE OF FIGURES''" by code_simp
  have b: "5 \<le> length ''TABLE OF FIGURES''" by simp
  have c: "list_ex is_upper_char ''TABLE OF FIGURES''" by code_simp
  have d: "length (py_strip ''TABLE OF FIGURES'') \<le> 150" by code_simp
  have e: "length (py_split ''TABLE OF FIGURES'') \<le> 20" by code_simp
  from caps_classification [OF a b c d e] a b c d e show ?thesis by blast
qed

text \<open>
  Both added conditions are needed: 21 one-letter words are rejected by the gate, and
  five blanks trim to the empty text, which has no level.
\<close>

theorem caps_classification_counterexample:
  "caps_and_spaces ''A B C D E F G H I J K L M N O P Q R S T U''
   \<and> 5 \<le> length ''A B C D E F G H I J K L M N O P Q R S T U''
   \<and> is_heading ''A B C D E F G H I J K L M N O P Q R S T U'' = None
   \<and> caps_and_spaces ''     '' \<and> 5 \<le> length ''     '' \<and> is_heading ''     '' = None"
  by code_simp

section \<open>Failure isolation in the document processor\<close>

text \<open>
  C8: whenever opening the document, extracting the title or extracting the outline
  raises an instance of \<open>Exception\<close>, \<open>extract_structure\<close> returns the degraded result:
  the title is the stem of the file's name and the outline is empty; no such failure
  reaches the batch loop. In the second example the third page is unreadable: the title
  was found, and is dropped with the outline.
\<close>

theorem extract_structure_degraded:
  assumes "fitz_open pdf_path = Inl (Exception m) \<or>
           (\<exists>doc. fitz_open pdf_path = Inr doc \<and>
                  (extract_title doc = Inl (Exception m) \<or> extract_outline doc = Inl (Exception m)))"
  shows "extract_structure fitz_open pdf_path = Inr \<lparr>title = path_stem pdf_path, outline = []\<rparr>"
proof -
  from assms consider
    (at_open) "fitz_open pdf_path = Inl (Exception m)"
    | (at_title) doc where "fitz_open pdf_path = Inr doc" "extract_title doc = Inl (Exception m)"
    | (at_outline) doc where "fitz_open pdf_path = Inr doc" "extract_outline doc = Inl (Exception m)"
    by blast
  then have "try_body fitz_open pdf_path = Inl (Exception m)"
  proof cases
    case at_open
    then show ?thesis by (simp add: try_body_def)
  next
    case at_title
    then show ?thesis by (simp add: try_body_def)
  next
    case at_outline
    show ?thesis
    proof (cases "extract_title doc")
      case (Inl e)
      then have "extract_outline doc = Inl e" by (rule title_failure_is_outline_failure)
      with at_outline(2) have "e = Exception m" by simp
      with Inl at_outline(1) show ?thesis by (simp add: try_body_def)
    next
      case (Inr t)
      with at_outline show ?thesis by (simp add: try_body_def)
    qed
  qed
  then show ?thesis by (simp add: extract_structure_def degraded_def)
qed

theorem extract_structure_degraded_witness:
  "(\<lambda>p. Inl (Exception ''cannot open document'')) [''app'', ''input'', ''broken.pdf'']
      = (Inl (Exception ''cannot open document'') :: exn + document)
   \<and> extract_structure (\<lambda>p. Inl (Exception ''cannot open document''))
        [''app'', ''input'', ''broken.pdf'']
      = Inr \<lparr>title = ''broken'', outline = []\<rparr>
   \<and> extract_title report_doc = Inr ''Annual Report 2024''
   \<and> extract_outline report_doc = Inl (Exception ''unreadable page'')
   \<and> extract_structure (\<lambda>p. Inr report_doc) [''app'', ''input'', ''report.pdf'']
      = Inr \<lparr>title = ''report'', outline = []\<rparr>"
proof -
  have 1: "extract_structure (\<lambda>p. Inl (Exception ''cannot open document''))
        [''app'', ''input'', ''broken.pdf''] = Inr \<lparr>title = ''broken'', outline = []\<rparr>"
    using extract_structure_degraded [of "\<lambda>p. Inl (Exception ''cannot open document'')"
      "[''app'', ''input'', ''broken.pdf'']" "''cannot open document''"]
    by (simp add: path_stem_def path_name_def rfind_def)
  have 2: "extract_structure (\<lambda>p. Inr report_doc) [''app'', ''input'', ''report.pdf'']
      = Inr \<lparr>title = ''report'', outline = []\<rparr>"
    using extract_structure_degraded [of "\<lambda>p. Inr report_doc"
      "[''app'', ''input'', ''report.pdf'']" "''unreadable page''"]
    by (simp add: report_doc_outline path_stem_def path_name_def rfind_def)
  from 1 2 report_doc_title report_doc_outline show ?thesis by simp
qed

text \<open>
  An exception outside \<open>Exception\<close> is not caught: when the user interrupts the reading
  of a page, the \<open>KeyboardInterrupt\<close> leaves \<open>extract_structure\<close> and reaches the batch
  loop, and there is no degraded result.
\<close>

theorem extract_structure_degraded_counterexample:
  "interrupted_open [''app'', ''input'', ''broken.pdf'']
      = Inr [Inl (BaseException ''KeyboardInterrupt'')]
   \<and> extract_title [Inl (BaseException ''KeyboardInterrupt'')]
      = Inl (BaseException ''KeyboardInterrupt'')
   \<and> extract_structure interrupted_open [''app'', ''input'', ''broken.pdf'']
      = Inl (BaseException ''KeyboardInterrupt'')"
  by (simp add: interrupted_open_def extract_structure_def try_body_def extract_title_def)

section \<open>The outline\<close>

text \<open>
  C1: an outline that \<open>extract_outline\<close> returns has no two entries with the same pair
  of lowercased text and page. It is the list of the entries of the heading lines, in
  reading order, with the first entry of every key kept and each later one of that key
  left out: the same text on another page has an entry of its own, and a repeat on the
  same page, in any case of letters, is suppressed, so that the text and the level of
  an entry are those of the first such line of the page. Every non-empty line that gets
  a level has an entry with its lowercased text on its page.
\<close>

theorem outline_keys_distinct:
  assumes "extract_outline doc = Inr ol"
  shows "distinct (map entry_key ol)
         \<and> (\<exists>pages. doc = map Inr pages
                \<and> ol = first_by_key (heading_entries 0 pages)
                \<and> entry_key ` set ol = entry_key ` set (heading_entries 0 pages)
                \<and> (\<forall>k l h. k < length pages \<and> l \<in> set (page_lines (pages ! k))
                       \<and> full_line_of l \<noteq> [] \<and> is_heading (full_line_of l) = Some h
                     \<longrightarrow> (py_lower (full_line_of l), k + 1) \<in> entry_key ` set ol))"
proof -
  from assms obtain pages where p: "doc = map Inr pages"
    and ol: "ol = fst (note_entries (heading_entries 0 pages) ([], {}))"
    using extract_outline_Inr by blast
  have "outline_inv (note_entries (heading_entries 0 pages) ([], {}))"
    by (intro note_entries_inv outline_inv_init heading_entries_pages)
  then have d: "distinct (map entry_key ol)" by (simp add: outline_inv_def ol)
  have f: "ol = first_by_key (heading_entries 0 pages)"
    unfolding ol using note_entries_first [OF heading_entries_pages, of pages "([], {})"] by simp
  have k: "entry_key ` set ol = entry_key ` set (heading_entries 0 pages)"
    unfolding ol
    using note_entries_keys [OF outline_inv_init heading_entries_pages, of pages] by simp
  have "(py_lower (full_line_of l), k + 1) \<in> entry_key ` set ol"
    if "k < length pages" "l \<in> set (page_lines (pages ! k))"
      "full_line_of l \<noteq> []" "is_heading (full_line_of l) = Some h" for k l h
  proof -
    from that have "\<lparr>entry_level = h, entry_text = full_line_of l, entry_page = k + 1\<rparr>
          \<in> set (heading_entries 0 pages)" by (rule heading_entries_mem)
    then have "entry_key \<lparr>entry_level = h, entry_text = full_line_of l, entry_page = k + 1\<rparr>
          \<in> entry_key ` set ol" unfolding k by (rule imageI)
    then show ?thesis by (simp add: entry_key_def)
  qed
  with p d f k show ?thesis by blast
qed

text \<open>
  In the example the first page has the lines \<open>CONCLUSION\<close>, \<open>Conclusion\<close>, \<open>a) item\<close>
  (H2) and \<open>A) ITEM\<close> (H1), and the second page \<open>CONCLUSION\<close> again.
\<close>

theorem outline_keys_distinct_witness:
  "extract_outline (map Inr conclusion_pages)
     = Inr [\<lparr>entry_level = H1, entry_text = ''CONCLUSION'', entry_page = 1\<rparr>,
            \<lparr>entry_level = H2, entry_text = ''a) item'', entry_page = 1\<rparr>,
            \<lparr>entry_level = H1, entry_text = ''CONCLUSION'', entry_page = 2\<rparr>]
   \<and> distinct (map entry_key
        [\<lparr>entry_level = H1, entry_text = ''CONCLUSION'', entry_page = 1\<rparr>,
         \<lparr>entry_level = H2, entry_text = ''a) item'', entry_page = 1\<rparr>,
         \<lparr>entry_level = H1, entry_text = ''CONCLUSION'', entry_page = 2\<rparr>])
   \<and> first_by_key
        [\<lparr>entry_level = H1, entry_text = ''CONCLUSION'', entry_page = 1\<rparr>,
         \<lparr>entry_level = H1, entry_text = ''Conclusion'', entry_page = 1\<rparr>,
         \<lparr>entry_level = H2, entry_text = ''a) item'', entry_page = 1\<rparr>,
         \<lparr>entry_level = H1, entry_text = ''A) ITEM'', entry_page = 1\<rparr>,
         \<lparr>entry_level = H1, entry_text = ''CONCLUSION'', entry_page = 2\<rparr>]
       = [\<lparr>entry_level = H1, entry_text = ''CONCLUSION'', entry_page = 1\<rparr>,
          \<lparr>entry_level = H2, entry_text = ''a) item'', entry_page = 1\<rparr>,
          \<lparr>entry_level = H1, entry_text = ''CONCLUSION'', entry_page = 2\<rparr>]"
proof -
  from outline_keys_distinct [OF conclusion_outline]
  obtain pages where d: "distinct (map entry_key
        [\<lparr>entry_level = H1, entry_text = ''CONCLUSION'', entry_page = 1\<rparr>,
         \<lparr>entry_level = H2, entry_text = ''a) item'', entry_page = 1\<rparr>,
         \<lparr>entry_level = H1, entry_text = ''CONCLUSION'', entry_page = 2\<rparr>])"
    and p: "map Inr conclusion_pages = (map Inr pages :: document)"
    and f: "[\<lparr>entry_level = H1, entry_text = ''CONCLUSION'', entry_page = 1\<rparr>,
          \<lparr>entry_level = H2, entry_text = ''a) item'', entry_page = 1\<rparr>,
          \<lparr>entry_level = H1, entry_text = ''CONCLUSION'', entry_page = 2\<rparr>]
        = first_by_key (heading_entries 0 pages)"
    by blast
  from p have "pages = conclusion_pages" by (simp add: inj_map_eq_map)
  with f conclusion_heading_entries d conclusion_outline show ?thesis by simp
qed

text \<open>
  C3: the page numbers of an outline that \<open>extract_outline\<close> returns never decrease,
  and the outline is a subsequence of the entries of the heading lines in reading order
  (page by page, and within a page block by block and line by line): entries are only
  appended, never moved.
\<close>

theorem outline_reading_order:
  assumes "extract_outline doc = Inr ol"
  shows "sorted (map entry_page ol)
         \<and> (\<exists>pages. doc = map Inr pages \<and> subseq ol (heading_entries 0 pages))"
proof -
  from assms obtain pages where p: "doc = map Inr pages"
    and ol: "ol = fst (note_entries (heading_entries 0 pages) ([], {}))"
    using extract_outline_Inr by blast
  from note_entries_subseq [of "heading_entries 0 pages" "([], {})"]
  have s: "subseq ol (heading_entries 0 pages)" by (simp add: ol)
  then have "sorted (map entry_page ol)"
    using heading_entries_sorted by (rule subseq_sorted)
  with p s show ?thesis by blast
qed

theorem outline_reading_order_witness:
  "extract_outline (map Inr order_pages)
     = Inr [\<lparr>entry_level = H2, entry_text = ''2.1 Scope'', entry_page = 1\<rparr>,
            \<lparr>entry_level = H2, entry_text = ''1.1 Goals'', entry_page = 1\<rparr>,
            \<lparr>entry_level = H1, entry_text = ''INTRODUCTION'', entry_page = 3\<rparr>]
   \<and> sorted (map entry_page
        [\<lparr>entry_level = H2, entry_text = ''2.1 Scope'', entry_page = 1\<rparr>,
         \<lparr>entry_level = H2, entry_text = ''1.1 Goals'', entry_page = 1\<rparr>,
         \<lparr>entry_level = H1, entry_text = ''INTRODUCTION'', entry_page = 3\<rparr>])"
  using outline_reading_order [OF order_outline] order_outline by blast

end
